theory Spec2Isabelle
  imports Main
begin

section \<open>Calendar values\<close>

text \<open>
  The program builds every date with the dayjs library. A dayjs object wraps an instant
  and caches its local calendar fields (\<open>$y\<close>, \<open>$M\<close>, \<open>$D\<close>) and its time of day.
  The model keeps exactly these: the year, the month index 0..11 as dayjs counts it,
  the day of the month 1..31, and the time of day in milliseconds since local midnight.
  The local time zone is taken to have a fixed offset, so that calendar arithmetic
  keeps the time of day, as dayjs does outside a daylight-saving change.
\<close>

record dayjs =
  year :: nat
  month :: nat
  date :: nat
  tod :: nat

definition isLeap :: "nat \<Rightarrow> bool" where
  "isLeap y = ((y mod 4 = 0 \<and> y mod 100 \<noteq> 0) \<or> y mod 400 = 0)"

text \<open>\<open>daysInMonth()\<close> of the library, for the month index \<open>m\<close> of year \<open>y\<close>.\<close>

definition daysInMonth :: "nat \<Rightarrow> nat \<Rightarrow> nat" where
  "daysInMonth y m =
     (if m = 1 then (if isLeap y then 29 else 28)
      else if m = 3 \<or> m = 5 \<or> m = 8 \<or> m = 10 then 30
      else 31)"

text \<open>Days of the proleptic Gregorian calendar before 1 January of year \<open>y\<close>.\<close>

definition daysBeforeYear :: "nat \<Rightarrow> nat" where
  "daysBeforeYear y = 365 * y + (y + 3) div 4 - (y + 99) div 100 + (y + 399) div 400"

text \<open>Days of year \<open>y\<close> before the first day of the month with index \<open>m\<close>.\<close>

primrec daysBeforeMonth :: "nat \<Rightarrow> nat \<Rightarrow> nat" where
  "daysBeforeMonth y 0 = 0"
| "daysBeforeMonth y (Suc m) = daysBeforeMonth y m + daysInMonth y m"

text \<open>
  The number of the calendar day. The two \<open>min\<close> only make the function total and
  monotone on records that are no calendar date; the program never builds one, and on
  a calendar date they change nothing.
\<close>

definition dayNumber :: "dayjs \<Rightarrow> nat" where
  "dayNumber d =
     daysBeforeYear (year d) + daysBeforeMonth (year d) (min (month d) 11)
       + min (date d) (daysInMonth (year d) (month d))"

definition validDate :: "dayjs \<Rightarrow> bool" where
  "validDate d \<longleftrightarrow>
     month d < 12 \<and> 1 \<le> date d \<and> date d \<le> daysInMonth (year d) (month d)
       \<and> tod d < 86400000"

text \<open>
  \<open>valueOf()\<close>: the instant in milliseconds. The program only compares and subtracts
  instants, so the origin (here 0 January of year 0, local time) does not matter.
\<close>

definition valueOf :: "dayjs \<Rightarrow> int" where
  "valueOf d = int (dayNumber d) * 86400000 + int (tod d)"

text \<open>\<open>day()\<close>: the day of the week, 0 for Sunday and 6 for Saturday.\<close>

definition day :: "dayjs \<Rightarrow> nat" where
  "day d = (dayNumber d + 5) mod 7"

text \<open>\<open>add(1, 'day')\<close>: the next calendar day at the same time of day.\<close>

definition addDay :: "dayjs \<Rightarrow> dayjs" where
  "addDay d =
     (if date d < daysInMonth (year d) (month d) then d\<lparr>date := date d + 1\<rparr>
      else if month d < 11 then d\<lparr>month := month d + 1, date := 1\<rparr>
      else d\<lparr>year := year d + 1, month := 0, date := 1\<rparr>)"

text \<open>
  The setters of the library. \<open>year(y)\<close> and \<open>month(m)\<close> move to day 1, set the field
  with the native setter of the platform and then restore the day of the month, clamped
  to the length of the new month; a month index of 12 or more runs into the following
  years, as the native setter does. \<open>date(n)\<close> is the native \<open>setDate\<close>: day \<open>n\<close> counted
  from the first of the month, running into the next months when \<open>n\<close> is past the end
  of the month, and the last day of the month before for \<open>n = 0\<close>.
\<close>

definition setYear :: "dayjs \<Rightarrow> nat \<Rightarrow> dayjs" where
  "setYear d y = d\<lparr>year := y, date := min (date d) (daysInMonth y (month d))\<rparr>"

definition setMonth :: "dayjs \<Rightarrow> nat \<Rightarrow> dayjs" where
  "setMonth d m =
     (let y' = year d + m div 12; m' = m mod 12 in
      d\<lparr>year := y', month := m', date := min (date d) (daysInMonth y' m')\<rparr>)"

definition setDate :: "dayjs \<Rightarrow> nat \<Rightarrow> dayjs" where
  "setDate d n =
     (if n = 0 then
        (if month d = 0 then d\<lparr>year := year d - 1, month := 11, date := 31\<rparr>
         else d\<lparr>month := month d - 1, date := daysInMonth (year d) (month d - 1)\<rparr>)
      else (addDay ^^ (n - 1)) (d\<lparr>date := 1\<rparr>))"

text \<open>
  \<open>add(x, 'month')\<close> is \<open>set('month', $M + x)\<close>; the program passes \<open>interval * v\<close>
  with \<open>interval = 12 / visitCount\<close>, a fraction in general, and the native setter
  drops the fractional part. \<open>addMonths d num den\<close> adds \<open>num / den\<close> months.
  \<open>subtract(1, 'year')\<close> is \<open>set('year', $y - 1)\<close>.
\<close>

definition addMonths :: "dayjs \<Rightarrow> nat \<Rightarrow> nat \<Rightarrow> dayjs" where
  "addMonths d num den = setMonth d (month d + num div den)"

definition subtractYear :: "dayjs \<Rightarrow> dayjs" where
  "subtractYear d = setYear d (year d - 1)"

text \<open>\<open>startOf('day')\<close>, \<open>endOf('day')\<close>, \<open>endOf('month')\<close>, \<open>isBefore\<close>, \<open>isSame(_, 'day')\<close>.\<close>

definition startOfDay :: "dayjs \<Rightarrow> dayjs" where
  "startOfDay d = d\<lparr>tod := 0\<rparr>"

definition endOfDay :: "dayjs \<Rightarrow> dayjs" where
  "endOfDay d = d\<lparr>tod := 86399999\<rparr>"

definition endOfMonth :: "dayjs \<Rightarrow> dayjs" where
  "endOfMonth d = d\<lparr>date := daysInMonth (year d) (month d), tod := 86399999\<rparr>"

definition isBefore :: "dayjs \<Rightarrow> dayjs \<Rightarrow> bool" where
  "isBefore a b \<longleftrightarrow> valueOf a < valueOf b"

definition isSameDay :: "dayjs \<Rightarrow> dayjs \<Rightarrow> bool" where
  "isSameDay a b \<longleftrightarrow> valueOf (startOfDay a) \<le> valueOf b \<and> valueOf b \<le> valueOf (endOfDay a)"

text \<open>
  \<open>format('YYYY-MM-DD')\<close>: the year padded to four digits, the month number 1..12 and
  the day of the month padded to two.
\<close>

definition digitChar :: "nat \<Rightarrow> char" where
  "digitChar n = ''0123456789'' ! n"

fun showNat :: "nat \<Rightarrow> string" where
  "showNat n = (if n < 10 then [digitChar n] else showNat (n div 10) @ [digitChar (n mod 10)])"

declare showNat.simps [simp del]

definition padStart :: "nat \<Rightarrow> char \<Rightarrow> string \<Rightarrow> string" where
  "padStart len c s = replicate (len - length s) c @ s"

definition formatYMD :: "dayjs \<Rightarrow> string" where
  "formatYMD d =
     padStart 4 (CHR ''0'') (showNat (year d)) @ ''-''
       @ padStart 2 (CHR ''0'') (showNat (month d + 1)) @ ''-''
       @ padStart 2 (CHR ''0'') (showNat (date d))"

section \<open>Working-day calendar\<close>

text \<open>
  \<open>isWorkingDay(date, holidays, saturdayWorking)\<close>: the holidays are the strings of
  the configuration, compared with the formatted date.
\<close>

definition isWorkingDay :: "dayjs \<Rightarrow> string list \<Rightarrow> bool \<Rightarrow> bool" where
  "isWorkingDay d holidays saturdayWorking =
     (let dWeek = day d; dateStr = formatYMD d in
      if dWeek = 0 then False
      else if dWeek = 6 \<and> \<not> saturdayWorking then False
      else if dateStr \<in> set holidays then False
      else True)"

text \<open>
  \<open>findNextWorkingDay\<close>: the loop \<open>for (let i = 0; i < 60; i++)\<close>; the first argument
  of \<open>findNextWorkingDayLoop\<close> counts the iterations that are left, \<open>cur\<close> (the source's \<open>curr\<close>) is the
  loop variable, and the argument \<open>dt\<close> (the source's \<open>date\<close>) is returned when the
  loop runs out.
\<close>

fun findNextWorkingDayLoop :: "nat \<Rightarrow> dayjs \<Rightarrow> dayjs \<Rightarrow> string list \<Rightarrow> bool \<Rightarrow> dayjs" where
  "findNextWorkingDayLoop 0 dt cur holidays saturdayWorking = dt"
| "findNextWorkingDayLoop (Suc n) dt cur holidays saturdayWorking =
     (if isWorkingDay cur holidays saturdayWorking then cur
      else findNextWorkingDayLoop n dt (addDay cur) holidays saturdayWorking)"

definition findNextWorkingDay :: "dayjs \<Rightarrow> string list \<Rightarrow> bool \<Rightarrow> dayjs" where
  "findNextWorkingDay dt holidays saturdayWorking =
     findNextWorkingDayLoop 60 dt dt holidays saturdayWorking"

section \<open>Facts about the calendar\<close>

lemma div_ceil_step:
  fixes y k :: nat
  assumes "0 < k"
  shows "(y + k) div k = (y + (k - 1)) div k + (if y mod k = 0 then 1 else 0)"
proof -
  define q where "q = y div k"
  define r where "r = y mod k"
  have y: "y = r + q * k" and r: "r < k" using assms by (simp_all add: q_def r_def)
  have lhs: "(y + k) div k = Suc q" using assms unfolding q_def by (simp add: div_add_self2)
  have "(y + (k - 1)) div k = (r + (k - 1) + q * k) div k" by (simp add: y ac_simps)
  also have "\<dots> = (r + (k - 1)) div k + q" using assms by (metis add.commute div_mult_self1 not_gr_zero)
  finally have rhs: "(y + (k - 1)) div k = (r + (k - 1)) div k + q" .
  show ?thesis
  proof (cases "r = 0")
    case True
    then have "(r + (k - 1)) div k = 0" using assms by simp
    with lhs rhs True show ?thesis by (simp add: r_def)
  next
    case False
    then obtain r' where r': "r = Suc r'" by (cases r) auto
    have "r + (k - 1) = r' + k" using assms r' by simp
    moreover have "r' < k" using r r' by simp
    ultimately have "(r + (k - 1)) div k = 1" by (simp add: div_add_self2)
    with lhs rhs False show ?thesis by (simp add: r_def)
  qed
qed

lemma quad_step: "(y + 4) div 4 = (y + 3) div 4 + (if y mod 4 = 0 then 1 else (0::nat))"
  using div_ceil_step [of 4 y] by simp

lemma cent_step: "(y + 100) div 100 = (y + 99) div 100 + (if y mod 100 = 0 then 1 else (0::nat))"
  using div_ceil_step [of 100 y] by simp

lemma quadcent_step: "(y + 400) div 400 = (y + 399) div 400 + (if y mod 400 = 0 then 1 else (0::nat))"
  using div_ceil_step [of 400 y] by simp

lemma mod_100_4: "y mod 100 = 0 \<Longrightarrow> y mod 4 = (0::nat)"
  using mod_mod_cancel [of 4 100 y] by simp

lemma mod_400_100: "y mod 400 = 0 \<Longrightarrow> y mod 100 = (0::nat)"
  using mod_mod_cancel [of 100 400 y] by simp

lemma cent_le_quad: "(y + 99) div 100 \<le> (y + 3) div (4::nat)"
proof (induction y)
  case 0 show ?case by simp
next
  case (Suc y)
  show ?case
  proof (cases "y mod 100 = 0")
    case True
    with mod_100_4 [of y] Suc show ?thesis by (simp add: quad_step cent_step)
  next
    case False
    with Suc show ?thesis by (simp add: quad_step cent_step)
  qed
qed

lemma daysBeforeYear_Suc:
  "daysBeforeYear (Suc y) = daysBeforeYear y + (if isLeap y then 366 else 365)"
proof -
  define A where "A = (y + 3) div 4"
  define B where "B = (y + 99) div 100"
  define C where "C = (y + 399) div 400"
  define a where "a = (if y mod 4 = 0 then 1 else (0::nat))"
  define b where "b = (if y mod 100 = 0 then 1 else (0::nat))"
  define c where "c = (if y mod 400 = 0 then 1 else (0::nat))"
  have BA: "B \<le> A" unfolding A_def B_def by (rule cent_le_quad)
  have ba: "b \<le> a" unfolding a_def b_def using mod_100_4 [of y] by simp
  have A': "(Suc y + 3) div 4 = A + a"
    using quad_step [of y] by (simp add: A_def a_def)
  have B': "(Suc y + 99) div 100 = B + b"
    using cent_step [of y] by (simp add: B_def b_def)
  have C': "(Suc y + 399) div 400 = C + c"
    using quadcent_step [of y] by (simp add: C_def c_def)
  have new: "daysBeforeYear (Suc y) = 365 * Suc y + (A + a) - (B + b) + (C + c)"
    unfolding daysBeforeYear_def by (simp only: A' B' C')
  have old: "daysBeforeYear y = 365 * y + A - B + C"
    unfolding daysBeforeYear_def A_def B_def C_def by (rule refl)
  have leap: "(if isLeap y then 1 else (0::nat)) = a - b + c"
    unfolding isLeap_def a_def b_def c_def using mod_100_4 [of y] mod_400_100 [of y] by auto
  have "365 * Suc y + (A + a) - (B + b) + (C + c) = (365 * y + A - B + C) + (365 + (a - b + c))"
    using BA ba by simp
  then have "daysBeforeYear (Suc y) = daysBeforeYear y + (365 + (if isLeap y then 1 else 0))"
    by (simp only: new old leap)
  then show ?thesis by (simp split: if_splits)
qed

lemma daysBeforeMonth_11: "daysBeforeMonth y 11 + 31 = (if isLeap y then 366 else 365)"
  by (simp add: eval_nat_numeral daysInMonth_def)

lemma daysInMonth_ge: "28 \<le> daysInMonth y m"
  by (simp add: daysInMonth_def)

lemma daysInMonth_le: "daysInMonth y m \<le> 31"
  by (simp add: daysInMonth_def)

lemma dayNumber_addDay: "dayNumber (addDay d) = dayNumber d + 1"
proof -
  consider (a) "date d < daysInMonth (year d) (month d)"
    | (b) "\<not> date d < daysInMonth (year d) (month d)" "month d < 11"
    | (c) "\<not> date d < daysInMonth (year d) (month d)" "\<not> month d < 11"
    by blast
  then show ?thesis
  proof cases
    case a
    then show ?thesis by (simp add: addDay_def dayNumber_def)
  next
    case b
    have "1 \<le> daysInMonth (year d) (Suc (month d))"
      using daysInMonth_ge [of "year d" "Suc (month d)"] by simp
    with b show ?thesis by (simp add: addDay_def dayNumber_def min_def)
  next
    case c
    then have m: "daysInMonth (year d) (month d) = 31" by (simp add: daysInMonth_def)
    have "dayNumber d = daysBeforeYear (year d) + (daysBeforeMonth (year d) 11 + 31)"
      using c m by (simp add: dayNumber_def min_def)
    also have "\<dots> = daysBeforeYear (Suc (year d))"
      by (simp only: daysBeforeMonth_11 daysBeforeYear_Suc)
    finally have "dayNumber d = daysBeforeYear (Suc (year d))" .
    moreover have "dayNumber (addDay d) = daysBeforeYear (Suc (year d)) + 1"
      using c by (simp add: addDay_def dayNumber_def daysInMonth_def)
    ultimately show ?thesis by simp
  qed
qed



lemma dayNumber_addDays: "dayNumber ((addDay ^^ k) d) = dayNumber d + k"
  by (induction k) (simp_all add: dayNumber_addDay)

lemma tod_addDay: "tod (addDay d) = tod d"
  by (simp add: addDay_def)

lemma valueOf_addDay: "valueOf (addDay d) = valueOf d + 86400000"
  by (simp add: valueOf_def dayNumber_addDay tod_addDay)

text \<open>Rules that evaluate the calendar functions on numerals.\<close>

lemma daysBeforeMonth_numeral:
  "daysBeforeMonth y (numeral k) =
     daysBeforeMonth y (pred_numeral k) + daysInMonth y (pred_numeral k)"
  by (simp add: numeral_eq_Suc)

lemmas calendar_eval = day_def dayNumber_def daysBeforeYear_def daysBeforeMonth_numeral
  daysInMonth_def isLeap_def

lemmas format_eval = formatYMD_def padStart_def showNat.simps digitChar_def

section \<open>The working days of a month\<close>

text \<open>
  \<open>getWorkingDays(year, monthIndex, holidays, saturdayWorking)\<close>. The source starts
  from \<open>dayjs()\<close>, the instant of the call, which is the last argument \<open>now\<close> here.
  \<open>getWorkingDaysLoop\<close> is the \<open>while\<close> loop, with the loop variable \<open>cur\<close> (the source's
  \<open>curr\<close>), the end of the month \<open>endD\<close> and the array \<open>days\<close> built so far.
\<close>

function getWorkingDaysLoop ::
  "dayjs \<Rightarrow> dayjs \<Rightarrow> string list \<Rightarrow> bool \<Rightarrow> dayjs list \<Rightarrow> dayjs list" where
  "getWorkingDaysLoop cur endD holidays saturdayWorking days =
     (if isBefore cur endD \<or> isSameDay cur endD then
        getWorkingDaysLoop (addDay cur) endD holidays saturdayWorking
          (let dWeek = day cur;
               isSunday = (dWeek = 0);
               isSaturday = (dWeek = 6);
               dateStr = formatYMD cur;
               isHoliday = (dateStr \<in> set holidays);
               isWorking = (\<not> isSunday \<and> \<not> isHoliday);
               isWorking = (if isSaturday \<and> \<not> saturdayWorking then False else isWorking)
           in if isWorking then days @ [cur] else days)
      else days)"
  by pat_completeness auto
termination
proof (relation "measure (\<lambda>(cur, endD, holidays, saturdayWorking, days).
          nat (valueOf endD + 86400000 - int (dayNumber cur) * 86400000))")
  show "wf (measure (\<lambda>(cur, endD, holidays, saturdayWorking, days).
          nat (valueOf endD + 86400000 - int (dayNumber cur) * 86400000)))" by simp
next
  fix cur endD :: dayjs and holidays :: "string list" and saturdayWorking :: bool
    and days :: "dayjs list"
  assume c: "isBefore cur endD \<or> isSameDay cur endD"
  have "int (dayNumber cur) * 86400000 \<le> valueOf endD"
    using c by (auto simp: isBefore_def isSameDay_def valueOf_def startOfDay_def dayNumber_def)
  then show "((addDay cur, endD, holidays, saturdayWorking,
         (let dWeek = day cur;
               isSunday = (dWeek = 0);
               isSaturday = (dWeek = 6);
               dateStr = formatYMD cur;
               isHoliday = (dateStr \<in> set holidays);
               isWorking = (\<not> isSunday \<and> \<not> isHoliday);
               isWorking = (if isSaturday \<and> \<not> saturdayWorking then False else isWorking)
           in if isWorking then days @ [cur] else days)),
        cur, endD, holidays, saturdayWorking, days)
       \<in> measure (\<lambda>(cur, endD, holidays, saturdayWorking, days).
          nat (valueOf endD + 86400000 - int (dayNumber cur) * 86400000))"
    by (simp add: dayNumber_addDay)
qed

declare getWorkingDaysLoop.simps [simp del]

definition getWorkingDays :: "nat \<Rightarrow> nat \<Rightarrow> string list \<Rightarrow> bool \<Rightarrow> dayjs \<Rightarrow> dayjs list" where
  "getWorkingDays yr monthIndex holidays saturdayWorking now =
     (let start = setDate (setMonth (setYear now yr) monthIndex) 1;
          endD = endOfMonth start
      in getWorkingDaysLoop start endD holidays saturdayWorking [])"

text \<open>Day \<open>k\<close> of the month with index \<open>m\<close> of year \<open>y\<close>, at the time of day \<open>t\<close>.\<close>

definition monthDay :: "nat \<Rightarrow> nat \<Rightarrow> nat \<Rightarrow> nat \<Rightarrow> dayjs" where
  "monthDay y m t k = \<lparr>year = y, month = m, date = k, tod = t\<rparr>"

section \<open>Even distribution\<close>

text \<open>
  The quota of slot \<open>d\<close> when \<open>N\<close> people are spread over \<open>D\<close> slots: the source computes
  \<open>base = Math.floor(N / D)\<close> and \<open>remainder = N % D\<close> and gives slot \<open>d\<close> the count
  \<open>d < remainder ? base + 1 : base\<close>. It does so for the working days of a month
  (\<open>countForDay\<close>) and, in a loop of its own, for the 12 months when every eligible
  person is to be placed (\<open>autoCounts\<close>, the source's \<open>countsToUse\<close> in that case).
\<close>

definition countForDay :: "nat \<Rightarrow> nat \<Rightarrow> nat \<Rightarrow> nat" where
  "countForDay N D d =
     (let base = N div D; remainder = N mod D in
      if d < remainder then base + 1 else base)"

definition autoCounts :: "nat \<Rightarrow> int list" where
  "autoCounts totalPatients =
     (let base = totalPatients div 12; rem = totalPatients mod 12 in
      fold (\<lambda>i countsToUse. countsToUse @ [int (if i < rem then base + 1 else base)])
        [0..<12] [])"

section \<open>The roster and the cohort rules\<close>

text \<open>
  A row of the sheet is an object from column header to cell value; a missing key reads
  as \<open>undefined\<close>, here \<open>None\<close>. The element of \<open>rowsData\<close> for a person holds the cells
  of the row and \<open>_birthDate\<close>, the parsed birth date, a dayjs object that may be invalid
  (\<open>None\<close>).
\<close>

datatype cell = CStr string | CNum int | CDate dayjs | CBool bool

type_synonym row = "string \<Rightarrow> cell option"

record patient =
  cells :: row
  birthDate :: "dayjs option"

text \<open>
  What \<open>processExcel\<close> has read from the workbook when scheduling starts: the key of the
  birth-date column \<open>trimmedHeaders[birthColIdx - 1]\<close>, the keys of the identifier and the
  name column as detected (\<open>None\<close> for \<open>null\<close> or \<open>undefined\<close>), and the rows.
\<close>

record sheet =
  birthKey :: "string option"
  idColKey :: "string option"
  nameColKey :: "string option"
  rowsData :: "patient list"

text \<open>
  An element of \<open>config.ranges\<close> and the configuration. A missing \<open>gender\<close> is the empty
  string and a missing \<open>visitCount\<close> is 0, both of which the source reads as absent;
  a missing \<open>holidays\<close> is the empty list.
\<close>

record cohort =
  startYear :: nat
  endYear :: nat
  gender :: string
  visitCount :: nat
  useBirthday :: bool
  counts :: "int list"

record config =
  ranges :: "cohort list"
  targetYear :: nat
  saturdayWorking :: bool
  holidays :: "string list"

subsection \<open>The derived gender\<close>

text \<open>
  \<open>trim()\<close> removes the white space at both ends (the ASCII white space here),
  \<open>split(' ')[0]\<close> is the text before the first space, and \<open>toLowerCase()\<close> maps the
  letters A to Z.
\<close>

definition isWhiteSpace :: "char \<Rightarrow> bool" where
  "isWhiteSpace c \<longleftrightarrow> c \<in> set [CHR '' '', CHR 0x09, CHR 0x0A, CHR 0x0B, CHR 0x0C, CHR 0x0D]"

definition trim :: "string \<Rightarrow> string" where
  "trim s = rev (dropWhile isWhiteSpace (rev (dropWhile isWhiteSpace s)))"

definition firstWordOf :: "string \<Rightarrow> string" where
  "firstWordOf s = takeWhile (\<lambda>c. c \<noteq> CHR '' '') s"

definition toLowerChar :: "char \<Rightarrow> char" where
  "toLowerChar c =
     (case map_of (zip ''ABCDEFGHIJKLMNOPQRSTUVWXYZ'' ''abcdefghijklmnopqrstuvwxyz'') c of
        None \<Rightarrow> c | Some l \<Rightarrow> l)"

definition toLowerCase :: "string \<Rightarrow> string" where
  "toLowerCase s = map toLowerChar s"

definition endsWith :: "string \<Rightarrow> string \<Rightarrow> bool" where
  "endsWith s suffix \<longleftrightarrow> length suffix \<le> length s \<and> drop (length s - length suffix) s = suffix"

text \<open>
  \<open>getGender(row)\<close>. A cell that is no string is falsy or has a \<open>String(_)\<close> whose first
  word does not end in the letter a (digits, \<open>true\<close>, the weekday name that starts the
  text of a date), so the source returns \<open>'male'\<close> for it.
\<close>

definition getGender :: "sheet \<Rightarrow> row \<Rightarrow> string" where
  "getGender sh r =
     (case nameColKey sh of
        None \<Rightarrow> ''male''
      | Some key \<Rightarrow>
          (case r key of
             Some (CStr storedVal) \<Rightarrow>
               if storedVal = [] then ''male''
               else
                 (let valStr = trim storedVal;
                      firstWord = firstWordOf valStr
                  in if firstWord = [] then ''male''
                     else if endsWith (toLowerCase firstWord) ''a'' then ''female''
                     else ''male'')
           | _ \<Rightarrow> ''male''))"

text \<open>
  The predicate of \<open>rowsData.filter\<close> that gives \<open>rangePatients\<close>; \<open>rng\<close> is the
  source's \<open>range\<close>.
\<close>

definition inRange :: "sheet \<Rightarrow> cohort \<Rightarrow> patient \<Rightarrow> bool" where
  "inRange sh rng r =
     (case birthDate r of
        None \<Rightarrow> False
      | Some b \<Rightarrow>
          (let y = year b in
           if y < 1900 then False
           else if y < startYear rng \<or> y > endYear rng then False
           else if gender rng \<noteq> [] \<and> gender rng \<noteq> ''all''
                   \<and> getGender sh (cells r) \<noteq> gender rng then False
           else True))"

definition rangePatients :: "sheet \<Rightarrow> cohort \<Rightarrow> patient list" where
  "rangePatients sh rng = filter (inRange sh rng) (rowsData sh)"

section \<open>Scheduling one cohort\<close>

text \<open>
  The clock: \<open>dayjs()\<close> reads the current instant. A run reads it many times, so the
  model takes the sequence \<open>clock\<close> of the instants read, \<open>clock 0\<close> first, and
  threads the number of reads made so far through the scheduling code.
\<close>

type_synonym clock = "nat \<Rightarrow> dayjs"

text \<open>
  \<open>visitKeys\<close>: the visit columns of a cohort, \<open>'Tashrif sanasi'\<close> for one visit and
  \<open>'1-tashrif sanasi'\<close>, \<open>'2-tashrif sanasi'\<close>, ... otherwise.
\<close>

definition visitKeys :: "nat \<Rightarrow> string list" where
  "visitKeys vc =
     (if vc = 1 then [''Tashrif sanasi'']
      else map (\<lambda>v. showNat v @ ''-tashrif sanasi'') [1..<vc + 1])"

text \<open>\<open>if (key) row[key] = value\<close>, for a key that may be absent.\<close>

definition setKey :: "string option \<Rightarrow> cell \<Rightarrow> row \<Rightarrow> row" where
  "setKey key v r = (case key of None \<Rightarrow> r | Some k \<Rightarrow> r(k \<mapsto> v))"

text \<open>
  The start of an output row: the spread copy \<open>{ ...p }\<close> with the birth date written
  back as a date under the birth-date key (the pool only holds people whose birth date
  is valid) and \<open>_birthDate\<close> deleted.
\<close>

definition baseRow :: "sheet \<Rightarrow> patient \<Rightarrow> row" where
  "baseRow sh p =
     (case (birthKey sh, birthDate p) of
        (Some k, Some b) \<Rightarrow> (cells p)(k \<mapsto> CDate b)
      | _ \<Rightarrow> cells p)"

text \<open>
  \<open>generatedDates.forEach((date, idx) => { if (idx < visitCount) row[visitKeys[idx]] =
  date.toDate() })\<close>; \<open>visitKeys\<close> has \<open>visitCount\<close> entries.
\<close>

definition assignDates :: "string list \<Rightarrow> dayjs list \<Rightarrow> row \<Rightarrow> row" where
  "assignDates keys dates r = fold (\<lambda>(k, d) r. r(k \<mapsto> CDate d)) (zip keys dates) r"

subsection \<open>The cycle of a person placed on a working day\<close>

text \<open>
  The dates of a person whose first visit is on \<open>dayDate\<close>: the candidates
  \<open>dayDate.add(interval * v, 'month')\<close> for \<open>v\<close> from 1 to \<open>visitCount - 1\<close> with
  \<open>interval = 12 / visitCount\<close>, moved back a year when they leave the target year, then
  the sort by instant, then \<open>findNextWorkingDay\<close> on every date. The product
  \<open>interval * v\<close> is computed in double precision; its integer part is
  \<open>(12 * v) div visitCount\<close> for every visit count up to 93.
\<close>

definition nextDateOf :: "config \<Rightarrow> nat \<Rightarrow> dayjs \<Rightarrow> nat \<Rightarrow> dayjs" where
  "nextDateOf cfg vc dayDate v =
     (let nextDate = addMonths dayDate (12 * v) vc in
      if year nextDate > targetYear cfg then subtractYear nextDate else nextDate)"

definition generatedDatesB :: "config \<Rightarrow> nat \<Rightarrow> dayjs \<Rightarrow> dayjs list" where
  "generatedDatesB cfg vc dayDate =
     (if vc > 1 then
        fold (\<lambda>v generatedDates. generatedDates @ [nextDateOf cfg vc dayDate v])
          [1..<vc] [dayDate]
      else [dayDate])"

definition cycleDates :: "config \<Rightarrow> nat \<Rightarrow> dayjs \<Rightarrow> dayjs list" where
  "cycleDates cfg vc dayDate =
     map (\<lambda>d. findNextWorkingDay d (holidays cfg) (saturdayWorking cfg))
       (sort_key valueOf (generatedDatesB cfg vc dayDate))"

text \<open>
  The same projection in the words of the specification, to be compared with
  \<open>cycleDates\<close>: \<open>plusMonths f k\<close> is the date \<open>k\<close> whole months after \<open>f\<close>, on the
  same day of the month where the month has it and on its last day otherwise;
  \<open>cycleCandidate\<close> is the candidate for visit \<open>v\<close>, folded back by one year when it has
  left the target year; \<open>cycleProjection\<close> collects the first date and the candidates,
  sorts them and then maps every date to its next working day.
\<close>

definition plusMonths :: "dayjs \<Rightarrow> nat \<Rightarrow> dayjs" where
  "plusMonths f k =
     (let y = year f + (month f + k) div 12; m = (month f + k) mod 12 in
      \<lparr>year = y, month = m, date = min (date f) (daysInMonth y m), tod = tod f\<rparr>)"

definition cycleCandidate :: "config \<Rightarrow> nat \<Rightarrow> dayjs \<Rightarrow> nat \<Rightarrow> dayjs" where
  "cycleCandidate cfg vc f v =
     (let c = plusMonths f ((12 * v) div vc) in
      if year c > targetYear cfg
      then \<lparr>year = year c - 1, month = month c,
            date = min (date c) (daysInMonth (year c - 1) (month c)), tod = tod c\<rparr>
      else c)"


subsection \<open>The dates anchored to the birthday\<close>

text \<open>
  One round of the loop over \<open>v\<close> in birthday mode. It reads the clock for the date, for
  the length of the month and, when the birth day is past the end of the month, once
  more for the clamped date. The state is the number of clock reads and the array
  \<open>generatedDates\<close>.
\<close>

definition birthdayStep ::
  "config \<Rightarrow> clock \<Rightarrow> nat \<Rightarrow> nat \<Rightarrow> nat \<Rightarrow> nat \<times> dayjs list \<Rightarrow> nat \<times> dayjs list" where
  "birthdayStep cfg clk vc birthDay v st =
     (let n = fst st; generatedDates = snd st;
          targetMonth = (v * 12) div vc;
          d = setDate (setMonth (setYear (clk n) (targetYear cfg)) targetMonth) birthDay;
          m = setMonth (setYear (clk (n + 1)) (targetYear cfg)) targetMonth;
          daysInMonth' = daysInMonth (year m) (month m);
          d = (if birthDay > daysInMonth'
               then setDate (setMonth (setYear (clk (n + 2)) (targetYear cfg)) targetMonth)
                      daysInMonth'
               else d);
          n' = (if birthDay > daysInMonth' then n + 3 else n + 2);
          d = findNextWorkingDay d (holidays cfg) (saturdayWorking cfg)
      in (n', generatedDates @ [d]))"

definition birthdayDates :: "config \<Rightarrow> clock \<Rightarrow> nat \<Rightarrow> nat \<Rightarrow> nat \<Rightarrow> nat \<times> dayjs list" where
  "birthdayDates cfg clk vc birthDay n =
     (let st = fold (birthdayStep cfg clk vc birthDay) [0..<vc] (n, []) in
      (fst st, sort_key valueOf (snd st)))"


text \<open>
  The state of the scheduling of one cohort: \<open>pIndex\<close>, the array \<open>rangeAllRows\<close> and the
  number of clock reads.
\<close>

record sched =
  pIndex :: nat
  rangeAllRows :: "row list"
  reads :: nat

text \<open>
  Birthday mode (logic A): \<open>patientPool.forEach\<close>, then \<open>pIndex = patientPool.length\<close>.
  \<open>birthDayOf\<close> is \<open>p._birthDate.date()\<close> (the pool holds no invalid birth date) and
  \<open>pRowA\<close> the row \<open>pRow\<close> of a person when \<open>n\<close> clock reads were made before.
\<close>

definition birthDayOf :: "patient \<Rightarrow> nat" where
  "birthDayOf p = (case birthDate p of Some b \<Rightarrow> date b | None \<Rightarrow> 0)"

definition pRowA :: "sheet \<Rightarrow> config \<Rightarrow> clock \<Rightarrow> nat \<Rightarrow> patient \<Rightarrow> nat \<Rightarrow> row" where
  "pRowA sh cfg clk vc p n =
     assignDates (visitKeys vc) (snd (birthdayDates cfg clk vc (birthDayOf p) n)) (baseRow sh p)"

definition birthdayPatient :: "sheet \<Rightarrow> config \<Rightarrow> clock \<Rightarrow> nat \<Rightarrow> patient \<Rightarrow> sched \<Rightarrow> sched" where
  "birthdayPatient sh cfg clk vc p st =
     (let birthDay = birthDayOf p;
          res = birthdayDates cfg clk vc birthDay (reads st);
          pRow = pRowA sh cfg clk vc p (reads st)
      in st\<lparr>rangeAllRows := rangeAllRows st @ [pRow], reads := fst res\<rparr>)"

definition logicA :: "sheet \<Rightarrow> config \<Rightarrow> clock \<Rightarrow> nat \<Rightarrow> patient list \<Rightarrow> sched \<Rightarrow> sched" where
  "logicA sh cfg clk vc patientPool st =
     (fold (birthdayPatient sh cfg clk vc) patientPool st)\<lparr>pIndex := length patientPool\<rparr>"

subsection \<open>Distribution over the months and the working days (logic B)\<close>

text \<open>
  The loop that takes the people of a month from the pool:
  \<open>for (i = 0; i < targetCount; i++) if (pIndex < patientPool.length) { push; pIndex++ }
  else break\<close>. The first argument counts the rounds that are left.
\<close>

fun takeForMonth :: "nat \<Rightarrow> patient list \<Rightarrow> nat \<Rightarrow> patient list \<Rightarrow> nat \<times> patient list" where
  "takeForMonth 0 patientPool pIdx patientsForMonth = (pIdx, patientsForMonth)"
| "takeForMonth (Suc n) patientPool pIdx patientsForMonth =
     (if pIdx < length patientPool
      then takeForMonth n patientPool (pIdx + 1) (patientsForMonth @ [patientPool ! pIdx])
      else (pIdx, patientsForMonth))"

text \<open>The state of the loops over the days of one month.\<close>

record monthSt =
  currentPatientIdx :: nat
  monthlyIdCounter :: nat
  allRows :: "row list"

text \<open>The row of a person placed on \<open>dayDate\<close>.\<close>

definition outRowB :: "sheet \<Rightarrow> config \<Rightarrow> nat \<Rightarrow> patient \<Rightarrow> nat \<Rightarrow> dayjs \<Rightarrow> row" where
  "outRowB sh cfg vc p idCounter dayDate =
     assignDates (visitKeys vc) (cycleDates cfg vc dayDate)
       (setKey (idColKey sh) (CNum (int idCounter)) (baseRow sh p))"

text \<open>
  The inner loop \<open>for (k = 0; k < countForDay; k++)\<close> with its \<open>break\<close>; the first
  argument counts the rounds that are left.
\<close>

fun placeOnDay ::
  "nat \<Rightarrow> sheet \<Rightarrow> config \<Rightarrow> nat \<Rightarrow> patient list \<Rightarrow> dayjs \<Rightarrow> monthSt \<Rightarrow> monthSt" where
  "placeOnDay 0 sh cfg vc patientsForMonth dayDate st = st"
| "placeOnDay (Suc n) sh cfg vc patientsForMonth dayDate st =
     (if currentPatientIdx st \<ge> length patientsForMonth then st
      else
        (let p = patientsForMonth ! currentPatientIdx st;
             outRow = outRowB sh cfg vc p (monthlyIdCounter st) dayDate
         in placeOnDay n sh cfg vc patientsForMonth dayDate
              (st\<lparr>currentPatientIdx := currentPatientIdx st + 1,
                  monthlyIdCounter :=
                    (if idColKey sh = None then monthlyIdCounter st
                     else monthlyIdCounter st + 1),
                  allRows := allRows st @ [outRow]\<rparr>)))"

text \<open>The loop \<open>for (d = 0; d < D; d++)\<close> over the working days of the month.\<close>

definition placeMonth ::
  "sheet \<Rightarrow> config \<Rightarrow> nat \<Rightarrow> patient list \<Rightarrow> dayjs list \<Rightarrow> row list \<Rightarrow> row list" where
  "placeMonth sh cfg vc patientsForMonth workingDays rs =
     (let N = length patientsForMonth; D = length workingDays in
      allRows
        (fold (\<lambda>d st. placeOnDay (countForDay N D d) sh cfg vc patientsForMonth
                         (workingDays ! d) st)
           [0..<D]
           \<lparr>currentPatientIdx = 0, monthlyIdCounter = 1, allRows = rs\<rparr>))"

text \<open>
  One round of the loop over the months \<open>m = 0 .. 11\<close>; \<open>countsToUse[m] || 0\<close> reads 0
  past the end of the array.
\<close>

definition monthStep ::
  "sheet \<Rightarrow> config \<Rightarrow> clock \<Rightarrow> nat \<Rightarrow> patient list \<Rightarrow> int list \<Rightarrow> nat \<Rightarrow> sched \<Rightarrow> sched" where
  "monthStep sh cfg clk vc patientPool countsToUse m st =
     (let targetCount = (if m < length countsToUse then countsToUse ! m else 0) in
      if targetCount = 0 then st
      else
        (let workingDays =
               getWorkingDays (targetYear cfg) m (holidays cfg) (saturdayWorking cfg)
                 (clk (reads st));
             st = st\<lparr>reads := reads st + 1\<rparr>
         in if length workingDays = 0 then st
            else
              (let taken = takeForMonth (nat targetCount) patientPool (pIndex st) [];
                   patientsForMonth = snd taken;
                   st = st\<lparr>pIndex := fst taken\<rparr>
               in if length patientsForMonth = 0 then st
                  else st\<lparr>rangeAllRows :=
                         placeMonth sh cfg vc patientsForMonth workingDays
                           (rangeAllRows st)\<rparr>)))"

definition logicB ::
  "sheet \<Rightarrow> config \<Rightarrow> clock \<Rightarrow> nat \<Rightarrow> bool \<Rightarrow> cohort \<Rightarrow> patient list \<Rightarrow> sched \<Rightarrow> sched" where
  "logicB sh cfg clk vc processAll rng patientPool st =
     (let countsToUse = (if processAll then autoCounts (length patientPool) else counts rng)
      in fold (monthStep sh cfg clk vc patientPool countsToUse) [0..<12] st)"

subsection \<open>The people left in the pool\<close>

text \<open>
  The rows of the people from \<open>pIndex\<close> on, marked \<open>_isUnplanned\<close>; the source adds them
  only inside \<open>if (rangeAllRows.length > 0)\<close>. Their identifiers go on from the counter
  of the cohort's summary sheet, which has counted the rows placed so far.
\<close>

definition unplannedRow :: "sheet \<Rightarrow> patient \<Rightarrow> nat \<Rightarrow> row" where
  "unplannedRow sh p idCounter =
     (setKey (idColKey sh) (CNum (int idCounter)) (baseRow sh p))(''_isUnplanned'' \<mapsto> CBool True)"

definition unplannedStep :: "sheet \<Rightarrow> patient \<Rightarrow> nat \<times> row list \<Rightarrow> nat \<times> row list" where
  "unplannedStep sh p st =
     (let uIdCounterUnplanned = fst st; rs = snd st in
      ((if idColKey sh = None then uIdCounterUnplanned else uIdCounterUnplanned + 1),
       rs @ [unplannedRow sh p uIdCounterUnplanned]))"

definition addUnplanned :: "sheet \<Rightarrow> patient list \<Rightarrow> sched \<Rightarrow> row list" where
  "addUnplanned sh patientPool st =
     (if length (rangeAllRows st) > 0 then
        (let uIdCounter =
               (if idColKey sh = None then 1 else 1 + length (rangeAllRows st))
         in if pIndex st < length patientPool then
              snd (fold (unplannedStep sh) (drop (pIndex st) patientPool)
                     (uIdCounter, rangeAllRows st))
            else rangeAllRows st)
      else rangeAllRows st)"

section \<open>The run\<close>

text \<open>
  The warnings and the error of a run, with the values their messages name: the years of
  the cohort, its gender (\<open>'all'\<close> when absent), the planned and the available total.
\<close>

datatype warning = NoPopulation nat nat string | PlanBelowPopulation nat nat int nat

datatype error = PlanAbovePopulation nat nat int nat

text \<open>An element of \<open>allRangesRows\<close>.\<close>

record rowGroup =
  rows :: "row list"
  groupVisitCount :: nat

text \<open>The state of the loop over the cohort rules.\<close>

record run =
  warnings :: "warning list"
  allRangesRows :: "rowGroup list"
  clockReads :: nat

definition visitCountOf :: "cohort \<Rightarrow> nat" where
  "visitCountOf rng = (if visitCount rng = 0 then 1 else visitCount rng)"

definition processAllOf :: "cohort \<Rightarrow> bool" where
  "processAllOf rng = (if useBirthday rng then True else if visitCountOf rng > 1 then True else False)"

text \<open>
  The scheduling of a cohort that has a pool: \<open>pIndex = 0\<close>, \<open>rangeAllRows = []\<close>, then
  logic A in birthday mode and logic B otherwise; \<open>n\<close> is the number of clock reads made
  before. The rows in \<open>rangeAllRows\<close> at the end are the people placed.
\<close>

definition schedule :: "sheet \<Rightarrow> config \<Rightarrow> clock \<Rightarrow> cohort \<Rightarrow> nat \<Rightarrow> sched" where
  "schedule sh cfg clk rng n =
     (let vc = visitCountOf rng;
          patientPool = rangePatients sh rng;
          processAll = processAllOf rng;
          st0 = \<lparr>pIndex = 0, rangeAllRows = [], reads = n\<rparr>
      in if useBirthday rng then logicA sh cfg clk vc patientPool st0
         else logicB sh cfg clk vc processAll rng patientPool st0)"

text \<open>
  The body of \<open>for (const range of config.ranges)\<close>: \<open>Inl\<close> is the \<open>throw\<close>, which ends
  the run.
\<close>

definition processRange :: "sheet \<Rightarrow> config \<Rightarrow> clock \<Rightarrow> cohort \<Rightarrow> run \<Rightarrow> error + run" where
  "processRange sh cfg clk rng r =
     (let vc = visitCountOf rng;
          patientPool = rangePatients sh rng;
          totalPatients = length patientPool;
          processAll = processAllOf rng;
          totalPlanned = fold (\<lambda>b a. a + b) (counts rng) 0
      in if totalPatients = 0 then
           Inr (r\<lparr>warnings := warnings r @
                  [NoPopulation (startYear rng) (endYear rng)
                     (if gender rng = [] then ''all'' else gender rng)]\<rparr>)
         else if \<not> processAll \<and> totalPlanned > int totalPatients then
           Inl (PlanAbovePopulation (startYear rng) (endYear rng) totalPlanned totalPatients)
         else
           (let ws = (if \<not> processAll \<and> totalPlanned < int totalPatients
                      then [PlanBelowPopulation (startYear rng) (endYear rng) totalPlanned
                              totalPatients]
                      else []);
                st = schedule sh cfg clk rng (clockReads r)
            in Inr (r\<lparr>warnings := warnings r @ ws,
                       allRangesRows := allRangesRows r @
                         [\<lparr>rows = addUnplanned sh patientPool st, groupVisitCount = vc\<rparr>],
                       clockReads := reads st\<rparr>)))"

fun processRanges :: "sheet \<Rightarrow> config \<Rightarrow> clock \<Rightarrow> cohort list \<Rightarrow> run \<Rightarrow> error + run" where
  "processRanges sh cfg clk [] r = Inr r"
| "processRanges sh cfg clk (rng # rest) r =
     (case processRange sh cfg clk rng r of
        Inl e \<Rightarrow> Inl e
      | Inr r' \<Rightarrow> processRanges sh cfg clk rest r')"

subsection \<open>The consolidated plan\<close>

definition maxVisitsGlobal :: "config \<Rightarrow> nat" where
  "maxVisitsGlobal cfg =
     fold (\<lambda>r mx. if visitCountOf r > mx then visitCountOf r else mx) (ranges cfg) 1"

text \<open>
  The body of \<open>group.rows.forEach\<close>; the state is \<open>gIdCounter\<close> and \<open>allFlatRows\<close>.
  Assigning \<open>undefined\<close> leaves the key reading as \<open>undefined\<close>.
\<close>

definition flattenRow ::
  "sheet \<Rightarrow> nat \<Rightarrow> nat \<Rightarrow> row \<Rightarrow> nat \<times> row list \<Rightarrow> nat \<times> row list" where
  "flattenRow sh maxVisits gvc r st =
     (let gIdCounter = fst st; allFlatRows = snd st;
          newR = r;
          newR = (if gvc = 1 \<and> maxVisits > 1
                  then (newR(''1-tashrif sanasi'' := r ''Tashrif sanasi''))
                         (''Tashrif sanasi'' := None)
                  else newR);
          newR = setKey (idColKey sh) (CNum (int gIdCounter)) newR;
          gIdCounter = (if idColKey sh = None then gIdCounter else gIdCounter + 1)
      in (gIdCounter, allFlatRows @ [newR]))"

definition allFlatRowsOf :: "sheet \<Rightarrow> nat \<Rightarrow> rowGroup list \<Rightarrow> row list" where
  "allFlatRowsOf sh maxVisits gs =
     snd (fold (\<lambda>g st. fold (flattenRow sh maxVisits (groupVisitCount g)) (rows g) st)
            gs (1, []))"

text \<open>
  The outcome of a run that does not throw: the warnings, one entry for every cohort that
  has a pool, and the rows of the consolidated sheet, which is only written when there is
  such a cohort.
\<close>

record outcome =
  outWarnings :: "warning list"
  outGroups :: "rowGroup list"
  outPlan :: "row list option"

definition processExcel :: "sheet \<Rightarrow> config \<Rightarrow> clock \<Rightarrow> error + outcome" where
  "processExcel sh cfg clk =
     (case processRanges sh cfg clk (ranges cfg)
             \<lparr>warnings = [], allRangesRows = [], clockReads = 0\<rparr> of
        Inl e \<Rightarrow> Inl e
      | Inr r \<Rightarrow>
          Inr \<lparr>outWarnings = warnings r,
               outGroups = allRangesRows r,
               outPlan =
                 (if length (allRangesRows r) > 0
                  then Some (allFlatRowsOf sh (maxVisitsGlobal cfg) (allRangesRows r))
                  else None)\<rparr>)"

section \<open>Notions used to describe what the scheduling loops compute\<close>

text \<open>
  \<open>idAt sh c i\<close>: the value of an identifier counter that started at \<open>c\<close> after \<open>i\<close> rows; the
  counters only advance when an identifier column was detected.
\<close>

definition idAt :: "sheet \<Rightarrow> nat \<Rightarrow> nat \<Rightarrow> nat" where
  "idAt sh c i = (if idColKey sh = None then c else c + i)"

text \<open>
  \<open>quotaSum N D k\<close>: the people placed on the first \<open>k\<close> of \<open>D\<close> working days;
  \<open>daysFor N wd k\<close>: the working day of each of them, in the order of placement.
\<close>

definition quotaSum :: "nat \<Rightarrow> nat \<Rightarrow> nat \<Rightarrow> nat" where
  "quotaSum N D k = sum_list (map (countForDay N D) [0..<k])"

definition daysFor :: "nat \<Rightarrow> dayjs list \<Rightarrow> nat \<Rightarrow> dayjs list" where
  "daysFor N wd k =
     concat (map (\<lambda>d. replicate (countForDay N (length wd) d) (wd ! d)) [0..<k])"

text \<open>
  \<open>rowOf\<close>: the row of the person with index \<open>fst x\<close> among the people of the month when
  placed on the day \<open>snd x\<close>. \<open>placedRow\<close>: the row \<open>r\<close> is that of person \<open>p\<close> placed on one of
  the working days that \<open>getWorkingDays\<close> returned for a month of the target year.
\<close>

definition rowOf :: "sheet \<Rightarrow> config \<Rightarrow> nat \<Rightarrow> patient list \<Rightarrow> nat \<times> dayjs \<Rightarrow> row" where
  "rowOf sh cfg vc pfm x = outRowB sh cfg vc (pfm ! fst x) (idAt sh 1 (fst x)) (snd x)"

definition placedRow :: "sheet \<Rightarrow> config \<Rightarrow> clock \<Rightarrow> nat \<Rightarrow> patient \<Rightarrow> row \<Rightarrow> bool" where
  "placedRow sh cfg clk vc p r \<longleftrightarrow>
     (\<exists>idc m n dayDate. m < 12
        \<and> dayDate \<in> set (getWorkingDays (targetYear cfg) m (holidays cfg) (saturdayWorking cfg)
                           (clk n))
        \<and> r = outRowB sh cfg vc p idc dayDate)"

section \<open>Conditions used in the statements\<close>

text \<open>
  Every run of 60 consecutive calendar days holds a working day. It is the condition
  under which \<open>findNextWorkingDay\<close> does not fall back to the date it was given.
\<close>

definition workingDayWithin60 :: "string list \<Rightarrow> bool \<Rightarrow> bool" where
  "workingDayWithin60 hol sat \<longleftrightarrow>
     (\<forall>d. validDate d \<longrightarrow> (\<exists>k<60. isWorkingDay ((addDay ^^ k) d) hol sat))"

section \<open>The next working day\<close>

lemma findNextWorkingDayLoop_found:
  "k < n \<Longrightarrow> isWorkingDay ((addDay ^^ k) c) h s \<Longrightarrow> \<forall>j<k. \<not> isWorkingDay ((addDay ^^ j) c) h s
   \<Longrightarrow> findNextWorkingDayLoop n d c h s = (addDay ^^ k) c"
proof (induction n arbitrary: k c)
  case 0 then show ?case by simp
next
  case (Suc n)
  show ?case
  proof (cases k)
    case 0 with Suc.prems show ?thesis by simp
  next
    case (Suc k')
    from Suc.prems(3) Suc have nw: "\<not> isWorkingDay c h s" by (metis funpow_0 zero_less_Suc)
    have "findNextWorkingDayLoop n d (addDay c) h s = (addDay ^^ k') (addDay c)"
    proof (rule Suc.IH)
      show "k' < n" using Suc.prems(1) Suc by simp
      show "isWorkingDay ((addDay ^^ k') (addDay c)) h s" using Suc.prems(2) Suc by (simp add: funpow_swap1)
      show "\<forall>j<k'. \<not> isWorkingDay ((addDay ^^ j) (addDay c)) h s"
      proof (intro allI impI)
        fix j assume "j < k'"
        then have "Suc j < k" using Suc by simp
        with Suc.prems(3) have "\<not> isWorkingDay ((addDay ^^ Suc j) c) h s" by blast
        then show "\<not> isWorkingDay ((addDay ^^ j) (addDay c)) h s" by (simp add: funpow_swap1)
      qed
    qed
    with nw Suc show ?thesis by (simp add: funpow_swap1)
  qed
qed

lemma findNextWorkingDayLoop_none:
  "\<forall>j<n. \<not> isWorkingDay ((addDay ^^ j) c) h s \<Longrightarrow> findNextWorkingDayLoop n d c h s = d"
proof (induction n arbitrary: c)
  case 0 then show ?case by simp
next
  case (Suc n)
  have nw: "\<not> isWorkingDay c h s" using Suc.prems by (metis funpow_0 zero_less_Suc)
  have "\<forall>j<n. \<not> isWorkingDay ((addDay ^^ j) (addDay c)) h s"
  proof (intro allI impI)
    fix j assume "j < n"
    then have "\<not> isWorkingDay ((addDay ^^ Suc j) c) h s" using Suc.prems by (meson Suc_less_eq)
    then show "\<not> isWorkingDay ((addDay ^^ j) (addDay c)) h s" by (simp add: funpow_swap1)
  qed
  with Suc.IH nw show ?case by simp
qed


text \<open>
  Claim C7. \<open>findNextWorkingDay\<close> returns the first working day among the date and the
  59 days after it, when there is one, and the date it was given when none of these 60
  days is a working day; a date that is a working day is returned unchanged. The day
  \<open>k\<close> days after \<open>d\<close> is \<open>(addDay ^^ k) d\<close>, the value of the loop variable after \<open>k\<close>
  rounds (lemma \<open>dayNumber_addDays\<close>: its day number is that of \<open>d\<close> plus \<open>k\<close>).
\<close>

theorem findNextWorkingDay_first_within_60:
  "(\<forall>k<60. isWorkingDay ((addDay ^^ k) d) hol sat
        \<longrightarrow> (\<forall>j<k. \<not> isWorkingDay ((addDay ^^ j) d) hol sat)
        \<longrightarrow> findNextWorkingDay d hol sat = (addDay ^^ k) d)
   \<and> ((\<forall>k<60. \<not> isWorkingDay ((addDay ^^ k) d) hol sat)
        \<longrightarrow> findNextWorkingDay d hol sat = d)
   \<and> (isWorkingDay d hol sat \<longrightarrow> findNextWorkingDay d hol sat = d)"
proof (intro conjI allI impI)
  fix k
  assume "k < 60" "isWorkingDay ((addDay ^^ k) d) hol sat"
    "\<forall>j<k. \<not> isWorkingDay ((addDay ^^ j) d) hol sat"
  then show "findNextWorkingDay d hol sat = (addDay ^^ k) d"
    unfolding findNextWorkingDay_def by (rule findNextWorkingDayLoop_found)
next
  assume "\<forall>k<60. \<not> isWorkingDay ((addDay ^^ k) d) hol sat"
  then show "findNextWorkingDay d hol sat = d"
    unfolding findNextWorkingDay_def by (rule findNextWorkingDayLoop_none)
next
  assume "isWorkingDay d hol sat"
  then have "findNextWorkingDayLoop 60 d d hol sat = (addDay ^^ 0) d"
    by (intro findNextWorkingDayLoop_found) simp_all
  then show "findNextWorkingDay d hol sat = d"
    by (simp add: findNextWorkingDay_def)
qed

theorem findNextWorkingDay_first_within_60_witness:
  "findNextWorkingDay \<lparr>year = 2026, month = 0, date = 3, tod = 0\<rparr> [''2026-01-05''] False
     = \<lparr>year = 2026, month = 0, date = 6, tod = 0\<rparr>
   \<and> findNextWorkingDay \<lparr>year = 2026, month = 0, date = 6, tod = 0\<rparr> [''2026-01-05''] False
     = \<lparr>year = 2026, month = 0, date = 6, tod = 0\<rparr>
   \<and> findNextWorkingDay \<lparr>year = 2026, month = 0, date = 3, tod = 0\<rparr>
       (map (\<lambda>k. formatYMD ((addDay ^^ k) \<lparr>year = 2026, month = 0, date = 3, tod = 0\<rparr>)) [0..<60])
       True
     = \<lparr>year = 2026, month = 0, date = 3, tod = 0\<rparr>"
proof (intro conjI)
  let ?d = "\<lparr>year = 2026, month = 0, date = 3, tod = 0\<rparr>"
  let ?e = "\<lparr>year = 2026, month = 0, date = 6, tod = 0\<rparr>"
  let ?h = "[''2026-01-05'']"
  have d0: "(addDay ^^ 0) ?d = ?d" by simp
  have d1: "(addDay ^^ 1) ?d = \<lparr>year = 2026, month = 0, date = 4, tod = 0\<rparr>"
    by (simp add: addDay_def daysInMonth_def)
  have d2: "(addDay ^^ 2) ?d = \<lparr>year = 2026, month = 0, date = 5, tod = 0\<rparr>"
    by (simp add: addDay_def daysInMonth_def numeral_eq_Suc)
  have d3: "(addDay ^^ 3) ?d = ?e"
    by (simp add: addDay_def daysInMonth_def numeral_eq_Suc)
  have w3: "isWorkingDay ((addDay ^^ 3) ?d) ?h False"
    unfolding d3 by (simp add: isWorkingDay_def calendar_eval format_eval)
  have n3: "\<forall>j<3. \<not> isWorkingDay ((addDay ^^ j) ?d) ?h False"
  proof (intro allI impI)
    fix j :: nat
    assume "j < 3"
    then consider "j = 0" | "j = 1" | "j = 2" by linarith
    then show "\<not> isWorkingDay ((addDay ^^ j) ?d) ?h False"
    proof cases
      case 1
      show ?thesis unfolding 1 d0 by (simp add: isWorkingDay_def calendar_eval format_eval)
    next
      case 2
      show ?thesis unfolding 2 d1 by (simp add: isWorkingDay_def calendar_eval format_eval)
    next
      case 3
      show ?thesis unfolding 3 d2 by (simp add: isWorkingDay_def calendar_eval format_eval)
    qed
  qed
  have "(3::nat) < 60" by simp
  with findNextWorkingDay_first_within_60 [of ?d ?h False] w3 n3
  have "findNextWorkingDay ?d ?h False = (addDay ^^ 3) ?d" by blast
  then show "findNextWorkingDay ?d ?h False = ?e" by (simp only: d3)
  have "isWorkingDay ?e ?h False"
    by (simp add: isWorkingDay_def calendar_eval format_eval)
  with findNextWorkingDay_first_within_60 [of ?e ?h False]
  show "findNextWorkingDay ?e ?h False = ?e" by blast
  let ?hs = "map (\<lambda>k. formatYMD ((addDay ^^ k) ?d)) [0..<60]"
  have "\<forall>k<60. \<not> isWorkingDay ((addDay ^^ k) ?d) ?hs True"
    by (simp add: isWorkingDay_def Let_def)
  with findNextWorkingDay_first_within_60 [of ?d ?hs True]
  show "findNextWorkingDay ?d ?hs True = ?d" by blast
qed

section \<open>Calendar dates and their day numbers\<close>

lemma validDate_addDay: "validDate d \<Longrightarrow> validDate (addDay d)"
  using daysInMonth_ge [of "year d" "Suc (month d)"] daysInMonth_ge [of "Suc (year d)" 0]
  by (auto simp: validDate_def addDay_def)

lemma validDate_addDays: "validDate d \<Longrightarrow> validDate ((addDay ^^ k) d)"
  by (induction k) (simp_all add: validDate_addDay)

lemma tod_addDays: "tod ((addDay ^^ k) d) = tod d"
  by (induction k) (simp_all add: tod_addDay)

lemma daysBeforeMonth_mono: "m \<le> n \<Longrightarrow> daysBeforeMonth y m \<le> daysBeforeMonth y n"
  by (induction n) (auto simp: le_Suc_eq)

lemma daysBeforeMonth_12: "daysBeforeMonth y 12 = (if isLeap y then 366 else 365)"
  using daysBeforeMonth_11 [of y] by (simp add: daysBeforeMonth_numeral daysInMonth_def)

lemma daysBeforeYear_mono: "y \<le> z \<Longrightarrow> daysBeforeYear y \<le> daysBeforeYear z"
  by (induction z) (auto simp: le_Suc_eq daysBeforeYear_Suc)

lemma dayNumber_valid: 
  assumes "validDate d"
  shows "dayNumber d = daysBeforeYear (year d) + daysBeforeMonth (year d) (month d) + date d"
  using assms by (simp add: validDate_def dayNumber_def min_def)

lemma dayNumber_bounds:
  assumes "validDate d"
  shows "daysBeforeYear (year d) < dayNumber d" "dayNumber d \<le> daysBeforeYear (Suc (year d))"
proof -
  from assms have m: "month d < 12" and d1: "1 \<le> date d" 
    and d2: "date d \<le> daysInMonth (year d) (month d)" by (simp_all add: validDate_def)
  show "daysBeforeYear (year d) < dayNumber d" using d1 by (simp add: dayNumber_valid [OF assms])
  have "daysBeforeMonth (year d) (month d) + date d \<le> daysBeforeMonth (year d) (Suc (month d))"
    using d2 by simp
  also have "\<dots> \<le> daysBeforeMonth (year d) 12"
    using m by (intro daysBeforeMonth_mono) simp
  finally show "dayNumber d \<le> daysBeforeYear (Suc (year d))"
    by (simp add: dayNumber_valid [OF assms] daysBeforeYear_Suc daysBeforeMonth_12)
qed

lemma dayNumber_year_less:
  assumes "validDate a" "validDate b" "year a < year b"
  shows "dayNumber a < dayNumber b"
proof -
  have "dayNumber a \<le> daysBeforeYear (Suc (year a))" by (rule dayNumber_bounds [OF assms(1)])
  also have "\<dots> \<le> daysBeforeYear (year b)" using assms(3) by (intro daysBeforeYear_mono) simp
  also have "\<dots> < dayNumber b" by (rule dayNumber_bounds [OF assms(2)])
  finally show ?thesis .
qed

lemma dayNumber_month_less:
  assumes "validDate a" "validDate b" "year a = year b" "month a < month b"
  shows "dayNumber a < dayNumber b"
proof -
  from assms have d2: "date a \<le> daysInMonth (year a) (month a)" and d1: "1 \<le> date b"
    by (simp_all add: validDate_def)
  have "daysBeforeMonth (year a) (month a) + date a \<le> daysBeforeMonth (year a) (Suc (month a))"
    using d2 by simp
  also have "\<dots> \<le> daysBeforeMonth (year a) (month b)"
    using assms(4) by (intro daysBeforeMonth_mono) simp
  finally show ?thesis
    using d1 assms(3) by (simp add: dayNumber_valid [OF assms(1)] dayNumber_valid [OF assms(2)])
qed

lemma dayNumber_inj:
  assumes "validDate a" "validDate b" "dayNumber a = dayNumber b"
  shows "year a = year b \<and> month a = month b \<and> date a = date b"
proof -
  have y: "year a = year b"
    using dayNumber_year_less [OF assms(1,2)] dayNumber_year_less [OF assms(2,1)] assms(3)
    by (metis less_irrefl nat_neq_iff)
  have m: "month a = month b"
    using dayNumber_month_less [OF assms(1,2) y] dayNumber_month_less [OF assms(2,1) y [symmetric]] assms(3)
    by (metis less_irrefl nat_neq_iff)
  have "date a = date b"
    using assms(3) y m by (simp add: dayNumber_valid [OF assms(1)] dayNumber_valid [OF assms(2)])
  with y m show ?thesis by simp
qed

lemma dayjs_eqI:
  fixes a b :: dayjs
  assumes "validDate a" "validDate b" "dayNumber a = dayNumber b" "tod a = tod b"
  shows "a = b"
  using dayNumber_inj [OF assms(1-3)] assms(4) by simp

lemma reach_by_addDay:
  fixes a b :: dayjs
  assumes "validDate a" "validDate b" "tod a = tod b" "dayNumber a \<le> dayNumber b"
  shows "b = (addDay ^^ (dayNumber b - dayNumber a)) a"
proof (rule dayjs_eqI)
  show "validDate b" by fact
  show "validDate ((addDay ^^ (dayNumber b - dayNumber a)) a)" using assms(1) by (rule validDate_addDays)
  show "dayNumber b = dayNumber ((addDay ^^ (dayNumber b - dayNumber a)) a)"
    using assms(4) by (simp add: dayNumber_addDays)
  show "tod b = tod ((addDay ^^ (dayNumber b - dayNumber a)) a)"
    using assms(3) by (simp add: tod_addDays)
qed

section \<open>Properties of the next working day\<close>

lemma findNextWorkingDay_least:
  assumes "k < 60" "isWorkingDay ((addDay ^^ k) d) hol sat"
  shows "findNextWorkingDay d hol sat
           = (addDay ^^ (LEAST j. isWorkingDay ((addDay ^^ j) d) hol sat)) d"
proof -
  let ?W = "\<lambda>j. isWorkingDay ((addDay ^^ j) d) hol sat"
  let ?l = "LEAST j. ?W j"
  have l: "?W ?l" using assms(2) by (rule LeastI)
  have "?l \<le> k" using assms(2) by (rule Least_le)
  then have "?l < 60" using assms(1) by simp
  moreover have "\<forall>j<?l. \<not> ?W j" using not_less_Least by blast
  ultimately show ?thesis
    unfolding findNextWorkingDay_def using l by (intro findNextWorkingDayLoop_found)
qed

lemma findNextWorkingDay_none:
  assumes "\<forall>k<60. \<not> isWorkingDay ((addDay ^^ k) d) hol sat"
  shows "findNextWorkingDay d hol sat = d"
  unfolding findNextWorkingDay_def using assms by (rule findNextWorkingDayLoop_none)

lemma findNextWorkingDay_steps:
  "\<exists>k<60. findNextWorkingDay d hol sat = (addDay ^^ k) d"
proof (cases "\<exists>k<60. isWorkingDay ((addDay ^^ k) d) hol sat")
  case True
  then obtain k where k: "k < 60" "isWorkingDay ((addDay ^^ k) d) hol sat" by blast
  let ?l = "LEAST j. isWorkingDay ((addDay ^^ j) d) hol sat"
  have "?l \<le> k" using k(2) by (rule Least_le)
  then have "?l < 60" using k(1) by simp
  with findNextWorkingDay_least [OF k] show ?thesis by blast
next
  case False
  then have "findNextWorkingDay d hol sat = (addDay ^^ 0) d"
    using findNextWorkingDay_none [of d hol sat] by simp
  moreover have "(0::nat) < 60" by simp
  ultimately show ?thesis by (intro exI [of _ 0] conjI)
qed

lemma findNextWorkingDay_working:
  assumes "k < 60" "isWorkingDay ((addDay ^^ k) d) hol sat"
  shows "isWorkingDay (findNextWorkingDay d hol sat) hol sat"
  unfolding findNextWorkingDay_least [OF assms] using assms(2) by (rule LeastI)

lemma validDate_findNextWorkingDay:
  "validDate d \<Longrightarrow> validDate (findNextWorkingDay d hol sat)"
  using findNextWorkingDay_steps [of d hol sat] by (auto simp: validDate_addDays)

lemma tod_findNextWorkingDay: "tod (findNextWorkingDay d hol sat) = tod d"
  using findNextWorkingDay_steps [of d hol sat] by (auto simp: tod_addDays)

lemma dayNumber_findNextWorkingDay_ge: "dayNumber d \<le> dayNumber (findNextWorkingDay d hol sat)"
  using findNextWorkingDay_steps [of d hol sat] by (auto simp: dayNumber_addDays)

lemma findNextWorkingDay_mono:
  assumes a: "validDate a" and b: "validDate b" and t: "tod a = tod b"
    and le: "dayNumber a \<le> dayNumber b"
  shows "dayNumber (findNextWorkingDay a hol sat) \<le> dayNumber (findNextWorkingDay b hol sat)"
proof -
  define k where "k = dayNumber b - dayNumber a"
  have bk: "b = (addDay ^^ k) a" unfolding k_def by (rule reach_by_addDay [OF a b t le])
  have dnb: "dayNumber b = dayNumber a + k" using le by (simp add: k_def)
  let ?W = "\<lambda>j. isWorkingDay ((addDay ^^ j) a) hol sat"
  have Wb: "isWorkingDay ((addDay ^^ j) b) hol sat = ?W (j + k)" for j
    by (simp add: bk funpow_add)
  show ?thesis
  proof (cases "\<exists>j<60. ?W j")
    case False
    then have "findNextWorkingDay a hol sat = a" by (intro findNextWorkingDay_none) simp
    with le dayNumber_findNextWorkingDay_ge [of b hol sat] show ?thesis by simp
  next
    case True
    then obtain j where j: "j < 60" "?W j" by blast
    let ?l = "LEAST j. ?W j"
    have fa: "findNextWorkingDay a hol sat = (addDay ^^ ?l) a" by (rule findNextWorkingDay_least [OF j])
    have Wl: "?W ?l" using j(2) by (rule LeastI)
    have l60: "?l < 60" using Least_le [of ?W j, OF j(2)] j(1) by simp
    show ?thesis
    proof (cases "?l < k")
      case True
      then have "dayNumber (findNextWorkingDay a hol sat) < dayNumber b"
        by (simp add: fa dayNumber_addDays dnb)
      with dayNumber_findNextWorkingDay_ge [of b hol sat] show ?thesis by simp
    next
      case False
      then have kl: "k \<le> ?l" by simp
      have w: "isWorkingDay ((addDay ^^ (?l - k)) b) hol sat" using Wl kl by (simp add: Wb)
      have lt: "?l - k < 60" using l60 by simp
      let ?m = "LEAST i. isWorkingDay ((addDay ^^ i) b) hol sat"
      have fb: "findNextWorkingDay b hol sat = (addDay ^^ ?m) b"
        by (rule findNextWorkingDay_least [OF lt w])
      have "isWorkingDay ((addDay ^^ ?m) b) hol sat" using w by (rule LeastI)
      then have "?W (?m + k)" by (simp add: Wb)
      then have "?l \<le> ?m + k" by (rule Least_le)
      then show ?thesis by (simp add: fa fb dayNumber_addDays dnb)
    qed
  qed
qed

section \<open>The working days of a month, in closed form\<close>

lemma dayNumber_tod [simp]: "dayNumber (d\<lparr>tod := t\<rparr>) = dayNumber d"
  by (simp add: dayNumber_def)

lemma day_tod [simp]: "day (d\<lparr>tod := t\<rparr>) = day d"
  by (simp add: day_def)

lemma formatYMD_tod [simp]: "formatYMD (d\<lparr>tod := t\<rparr>) = formatYMD d"
  by (simp add: formatYMD_def)

lemma isWorkingDay_tod [simp]: "isWorkingDay (d\<lparr>tod := t\<rparr>) hol sat = isWorkingDay d hol sat"
  by (simp add: isWorkingDay_def)

lemma addDay_tod: "addDay (d\<lparr>tod := t\<rparr>) = (addDay d)\<lparr>tod := t\<rparr>"
  by (simp add: addDay_def)

lemma monthStart:
  "setDate (setMonth (setYear now y) m) 1
     = \<lparr>year = y + m div 12, month = m mod 12, date = 1, tod = tod now\<rparr>"
  by (simp add: setDate_def setMonth_def setYear_def Let_def)

lemma getWorkingDaysLoop_after:
  assumes "dayNumber endD < dayNumber cur" "tod endD < 86400000"
  shows "getWorkingDaysLoop cur endD hol sat acc = acc"
proof -
  have "int (dayNumber endD) + 1 \<le> int (dayNumber cur)" using assms(1) by simp
  then have "(int (dayNumber endD) + 1) * 86400000 \<le> int (dayNumber cur) * 86400000"
    by (rule mult_right_mono) simp
  then have "valueOf endD < int (dayNumber cur) * 86400000"
    using assms(2) by (simp add: valueOf_def algebra_simps)
  then have "\<not> isBefore cur endD" "\<not> isSameDay cur endD"
    by (simp_all add: isBefore_def isSameDay_def valueOf_def startOfDay_def)
  then show ?thesis by (subst getWorkingDaysLoop.simps) simp
qed

lemma getWorkingDaysLoop_step:
  assumes "dayNumber cur \<le> dayNumber endD" "tod cur < 86400000" "tod endD = 86399999"
  shows "getWorkingDaysLoop cur endD hol sat acc
           = getWorkingDaysLoop (addDay cur) endD hol sat
               (if isWorkingDay cur hol sat then acc @ [cur] else acc)"
proof -
  have c: "isBefore cur endD \<or> isSameDay cur endD"
  proof (cases "dayNumber cur = dayNumber endD")
    case True
    then have "isSameDay cur endD"
      using assms(3) by (simp add: isSameDay_def valueOf_def startOfDay_def endOfDay_def)
    then show ?thesis ..
  next
    case False
    with assms(1) have "int (dayNumber cur) + 1 \<le> int (dayNumber endD)" by simp
    then have "(int (dayNumber cur) + 1) * 86400000 \<le> int (dayNumber endD) * 86400000"
      by (rule mult_right_mono) simp
    then have "isBefore cur endD"
      using assms(2) by (simp add: isBefore_def valueOf_def algebra_simps)
    then show ?thesis ..
  qed
  have w: "(let dWeek = day cur;
               isSunday = (dWeek = 0);
               isSaturday = (dWeek = 6);
               dateStr = formatYMD cur;
               isHoliday = (dateStr \<in> set hol);
               isWorking = (\<not> isSunday \<and> \<not> isHoliday);
               isWorking = (if isSaturday \<and> \<not> sat then False else isWorking)
           in if isWorking then acc @ [cur] else acc)
        = (if isWorkingDay cur hol sat then acc @ [cur] else acc)"
    by (auto simp: isWorkingDay_def Let_def)
  show ?thesis
    by (subst getWorkingDaysLoop.simps) (simp only: c w if_True)
qed

lemma getWorkingDaysLoop_month:
  assumes m: "m < 12" and t: "t < 86400000"
  shows "1 \<le> k \<Longrightarrow> k \<le> daysInMonth y m \<Longrightarrow>
     getWorkingDaysLoop (monthDay y m t k) (endOfMonth (monthDay y m t 1)) hol sat acc
       = acc @ filter (\<lambda>d. isWorkingDay d hol sat) (map (monthDay y m t) [k..<Suc (daysInMonth y m)])"
proof (induction "daysInMonth y m - k" arbitrary: k acc)
  case 0
  then have k: "k = daysInMonth y m" by simp
  let ?cur = "monthDay y m t k"
  let ?end = "endOfMonth (monthDay y m t 1)"
  have dn: "dayNumber ?cur = dayNumber ?end"
    using k by (simp add: monthDay_def endOfMonth_def dayNumber_def)
  have "getWorkingDaysLoop ?cur ?end hol sat acc
          = getWorkingDaysLoop (addDay ?cur) ?end hol sat
              (if isWorkingDay ?cur hol sat then acc @ [?cur] else acc)"
    using dn t by (intro getWorkingDaysLoop_step) (simp_all add: monthDay_def endOfMonth_def)
  also have "\<dots> = (if isWorkingDay ?cur hol sat then acc @ [?cur] else acc)"
    using dn by (intro getWorkingDaysLoop_after) (simp_all add: dayNumber_addDay endOfMonth_def)
  finally show ?case using k by simp
next
  case (Suc n)
  then have k: "k < daysInMonth y m" by simp
  let ?cur = "monthDay y m t k"
  let ?end = "endOfMonth (monthDay y m t 1)"
  have dn: "dayNumber ?cur \<le> dayNumber ?end"
    using k by (simp add: monthDay_def endOfMonth_def dayNumber_def)
  have nx: "addDay ?cur = monthDay y m t (Suc k)"
    using k by (simp add: addDay_def monthDay_def)
  have "getWorkingDaysLoop ?cur ?end hol sat acc
          = getWorkingDaysLoop (monthDay y m t (Suc k)) ?end hol sat
              (if isWorkingDay ?cur hol sat then acc @ [?cur] else acc)"
    using dn t nx getWorkingDaysLoop_step [of ?cur ?end hol sat acc]
    by (simp add: monthDay_def endOfMonth_def)
  also have "\<dots> = (if isWorkingDay ?cur hol sat then acc @ [?cur] else acc)
      @ filter (\<lambda>d. isWorkingDay d hol sat) (map (monthDay y m t) [Suc k..<Suc (daysInMonth y m)])"
    using Suc.hyps(2) k by (intro Suc.hyps(1)) simp_all
  finally show ?case using k by (simp add: upt_conv_Cons)
qed

lemma getWorkingDays_eq:
  assumes "m < 12" "tod now < 86400000"
  shows "getWorkingDays y m hol sat now
           = filter (\<lambda>d. isWorkingDay d hol sat)
               (map (monthDay y m (tod now)) [1..<Suc (daysInMonth y m)])"
proof -
  have s: "setDate (setMonth (setYear now y) m) 1 = monthDay y m (tod now) 1"
    using assms(1) unfolding monthStart monthDay_def by simp
  have d: "1 \<le> daysInMonth y m" using daysInMonth_ge [of y m] by simp
  have "getWorkingDays y m hol sat now
          = getWorkingDaysLoop (monthDay y m (tod now) 1)
              (endOfMonth (monthDay y m (tod now) 1)) hol sat []"
    by (simp only: getWorkingDays_def Let_def s)
  also have "\<dots> = [] @ filter (\<lambda>d. isWorkingDay d hol sat)
               (map (monthDay y m (tod now)) [1..<Suc (daysInMonth y m)])"
    using d by (intro getWorkingDaysLoop_month [OF assms]) simp_all
  finally show ?thesis by simp
qed

section \<open>Visit columns\<close>

lemma digitChar_inj: "a < 10 \<Longrightarrow> b < 10 \<Longrightarrow> digitChar a = digitChar b \<Longrightarrow> a = b"
proof -
  assume a: "a < 10" and b: "b < 10" and e: "digitChar a = digitChar b"
  have d: "distinct ''0123456789''" by simp
  have "length ''0123456789'' = 10" by simp
  with a b e d show "a = b" unfolding digitChar_def
    by (metis nth_eq_iff_index_eq)
qed

lemma showNat_nonempty: "showNat n \<noteq> []"
  by (subst showNat.simps) simp

lemma showNat_inj: "showNat a = showNat b \<Longrightarrow> a = b"
proof (induction a arbitrary: b rule: less_induct)
  case (less a)
  show ?case
  proof (cases "a < 10")
    case True
    then have sa: "showNat a = [digitChar a]" by (subst showNat.simps) simp
    show ?thesis
    proof (cases "b < 10")
      case b: True
      then have "showNat b = [digitChar b]" by (subst showNat.simps) simp
      with sa less.prems True b show ?thesis by (simp add: digitChar_inj)
    next
      case False
      then have "showNat b = showNat (b div 10) @ [digitChar (b mod 10)]"
        by (subst showNat.simps) simp
      with sa less.prems showNat_nonempty [of "b div 10"] show ?thesis by simp
    qed
  next
    case False
    then have sa: "showNat a = showNat (a div 10) @ [digitChar (a mod 10)]"
      by (subst showNat.simps) simp
    show ?thesis
    proof (cases "b < 10")
      case True
      then have "showNat b = [digitChar b]" by (subst showNat.simps) simp
      with sa less.prems showNat_nonempty [of "a div 10"] show ?thesis by simp
    next
      case b: False
      then have sb: "showNat b = showNat (b div 10) @ [digitChar (b mod 10)]"
        by (subst showNat.simps) simp
      from sa sb less.prems have e1: "showNat (a div 10) = showNat (b div 10)"
        and e2: "digitChar (a mod 10) = digitChar (b mod 10)" by simp_all
      have "a div 10 < a" using False by simp
      from less.IH [OF this e1] have d: "a div 10 = b div 10" .
      have m: "a mod 10 = b mod 10" using e2 by (intro digitChar_inj) simp_all
      show ?thesis using d m by (metis div_mult_mod_eq)
    qed
  qed
qed

lemma length_visitKeys: "0 < vc \<Longrightarrow> length (visitKeys vc) = vc"
  by (simp add: visitKeys_def)

lemma distinct_visitKeys: "distinct (visitKeys vc)"
proof -
  have "inj (\<lambda>v. showNat v @ ''-tashrif sanasi'')"
    by (rule injI) (simp add: showNat_inj)
  then show ?thesis by (simp add: visitKeys_def distinct_map inj_on_def)
qed

lemma assignDates_Nil [simp]: "assignDates [] ds r = r" "assignDates keys [] r = r"
  by (simp_all add: assignDates_def)

lemma assignDates_Cons [simp]:
  "assignDates (k # keys) (d # ds) r = assignDates keys ds (r(k \<mapsto> CDate d))"
  by (simp add: assignDates_def)

lemma assignDates_other:
  "k \<notin> set keys \<Longrightarrow> assignDates keys ds r k = r k"
proof (induction keys arbitrary: ds r)
  case Nil
  then show ?case by simp
next
  case (Cons a keys)
  show ?case
  proof (cases ds)
    case Nil
    then show ?thesis by simp
  next
    case (Cons e es)
    have "assignDates keys es (r(a \<mapsto> CDate e)) k = (r(a \<mapsto> CDate e)) k"
      using Cons.prems by (intro Cons.IH) simp
    with Cons.prems Cons show ?thesis by simp
  qed
qed

lemma assignDates_nth:
  "distinct keys \<Longrightarrow> i < length keys \<Longrightarrow> i < length ds \<Longrightarrow>
     assignDates keys ds r (keys ! i) = Some (CDate (ds ! i))"
proof (induction keys arbitrary: ds r i)
  case Nil
  then show ?case by simp
next
  case (Cons k keys)
  then obtain d ds' where ds: "ds = d # ds'" by (cases ds) auto
  show ?case
  proof (cases i)
    case 0
    have "assignDates keys ds' (r(k \<mapsto> CDate d)) k = (r(k \<mapsto> CDate d)) k"
      using Cons.prems(1) by (intro assignDates_other) simp
    with 0 ds show ?thesis by simp
  next
    case (Suc j)
    have "assignDates keys ds' (r(k \<mapsto> CDate d)) (keys ! j) = Some (CDate (ds' ! j))"
      using Cons.prems Suc ds by (intro Cons.IH) simp_all
    with Suc ds show ?thesis by simp
  qed
qed

section \<open>Properties of the cycle of visits\<close>

lemma fold_snoc_map: "fold (\<lambda>x acc. acc @ [g x]) xs ys = ys @ map g xs"
  by (induction xs arbitrary: ys) simp_all

lemma addMonths_plusMonths: "addMonths f num den = plusMonths f (num div den)"
  by (simp add: addMonths_def setMonth_def plusMonths_def Let_def)

lemma nextDateOf_candidate: "nextDateOf cfg vc f v = cycleCandidate cfg vc f v"
  by (simp add: nextDateOf_def cycleCandidate_def addMonths_plusMonths subtractYear_def
      setYear_def Let_def)

lemma generatedDatesB_eq:
  "generatedDatesB cfg vc f = f # map (cycleCandidate cfg vc f) [1..<vc]"
  by (simp add: generatedDatesB_def fold_snoc_map nextDateOf_candidate)


lemma length_cycleDates: "0 < vc \<Longrightarrow> length (cycleDates cfg vc f) = vc"
  by (simp add: cycleDates_def generatedDatesB_eq)

lemma validDate_plusMonths: "validDate f \<Longrightarrow> validDate (plusMonths f k)"
  using daysInMonth_ge [of "year f + (month f + k) div 12" "(month f + k) mod 12"]
  by (simp add: validDate_def plusMonths_def Let_def)

lemma tod_plusMonths: "tod (plusMonths f k) = tod f"
  by (simp add: plusMonths_def Let_def)

lemma validDate_cycleCandidate: "validDate f \<Longrightarrow> validDate (cycleCandidate cfg vc f v)"
proof -
  assume f: "validDate f"
  let ?c = "plusMonths f ((12 * v) div vc)"
  have c: "validDate ?c" using f by (rule validDate_plusMonths)
  show ?thesis
    using c daysInMonth_ge [of "year ?c - 1" "month ?c"]
    by (simp add: cycleCandidate_def Let_def validDate_def)
qed

lemma tod_cycleCandidate: "tod (cycleCandidate cfg vc f v) = tod f"
  by (simp add: cycleCandidate_def Let_def tod_plusMonths)

lemma generatedDatesB_valid:
  "validDate f \<Longrightarrow> d \<in> set (generatedDatesB cfg vc f) \<Longrightarrow> validDate d \<and> tod d = tod f"
  by (auto simp: generatedDatesB_eq validDate_cycleCandidate tod_cycleCandidate)

lemma sorted_snap:
  assumes "\<forall>x\<in>set xs. validDate x \<and> tod x = t" "sorted (map dayNumber xs)"
  shows "sorted (map (\<lambda>d. dayNumber (findNextWorkingDay d hol sat)) xs)"
  using assms
proof (induction xs)
  case Nil
  then show ?case by simp
next
  case (Cons x xs)
  have "\<forall>y\<in>set xs. dayNumber (findNextWorkingDay x hol sat) \<le> dayNumber (findNextWorkingDay y hol sat)"
  proof
    fix y assume y: "y \<in> set xs"
    with Cons.prems have "dayNumber x \<le> dayNumber y" by auto
    moreover from Cons.prems y have "validDate x" "validDate y" "tod x = tod y" by auto
    ultimately show "dayNumber (findNextWorkingDay x hol sat) \<le> dayNumber (findNextWorkingDay y hol sat)"
      by (intro findNextWorkingDay_mono)
  qed
  with Cons show ?case by simp
qed

lemma sorted_valueOf_same_tod:
  assumes "\<forall>x\<in>set xs. tod x = t"
  shows "sorted (map valueOf xs) \<longleftrightarrow> sorted (map dayNumber xs)"
  using assms
proof (induction xs)
  case Nil
  then show ?case by simp
next
  case (Cons x xs)
  have "\<And>y. y \<in> set xs \<Longrightarrow> (valueOf x \<le> valueOf y) = (dayNumber x \<le> dayNumber y)"
    using Cons.prems by (simp add: valueOf_def)
  with Cons show ?case by auto
qed

lemma sorted_cycleDates:
  assumes "validDate f"
  shows "sorted (map valueOf (cycleDates cfg vc f))"
proof -
  let ?g = "generatedDatesB cfg vc f"
  let ?s = "sort_key valueOf ?g"
  have v: "\<forall>x\<in>set ?s. validDate x \<and> tod x = tod f"
    using generatedDatesB_valid [OF assms] by simp
  then have t: "\<forall>x\<in>set ?s. tod x = tod f" by blast
  have "sorted (map valueOf ?s)" by (rule sorted_sort_key)
  then have "sorted (map dayNumber ?s)" using sorted_valueOf_same_tod [OF t] by simp
  then have s: "sorted (map (\<lambda>d. dayNumber (findNextWorkingDay d (holidays cfg) (saturdayWorking cfg))) ?s)"
    using v by (intro sorted_snap) 
  have "\<forall>x\<in>set (cycleDates cfg vc f). tod x = tod f"
    using t by (auto simp: cycleDates_def tod_findNextWorkingDay)
  from sorted_valueOf_same_tod [OF this] s show ?thesis
    by (simp add: cycleDates_def comp_def)
qed

section \<open>Properties of the dates anchored to the birthday\<close>



lemma setMonth_setYear:
  "m < 12 \<Longrightarrow> setMonth (setYear now y) m
     = \<lparr>year = y, month = m,
        date = min (min (date now) (daysInMonth y (month now))) (daysInMonth y m), tod = tod now\<rparr>"
  by (simp add: setMonth_def setYear_def Let_def)

lemma validDate_setDate:
  assumes "month d < 12" "tod d < 86400000"
  shows "validDate (setDate d n)"
proof (cases "n = 0")
  case True
  show ?thesis
  proof (cases "month d = 0")
    case m: True
    then show ?thesis using True assms by (simp add: setDate_def validDate_def daysInMonth_def)
  next
    case m: False
    then have "month d - 1 < 12" using assms by simp
    then show ?thesis
      using True m assms daysInMonth_ge [of "year d" "month d - 1"]
      by (simp add: setDate_def validDate_def)
  qed
next
  case False
  have "validDate (d\<lparr>date := 1\<rparr>)"
    using assms daysInMonth_ge [of "year d" "month d"] by (simp add: validDate_def)
  then show ?thesis using False by (simp add: setDate_def validDate_addDays)
qed

lemma tod_setDate: "tod (setDate d n) = tod d"
  by (simp add: setDate_def tod_addDays)


lemma birthdayStep_valid:
  assumes v: "v < vc" and clk: "\<forall>n. tod (clk n) < 86400000"
  shows "\<exists>d n'. birthdayStep cfg clk vc b v (n, ds)
            = (n', ds @ [findNextWorkingDay d (holidays cfg) (saturdayWorking cfg)])
          \<and> validDate d"
proof -
  let ?tm = "(v * 12) div vc"
  have tm: "?tm < 12" using v by (simp add: less_mult_imp_div_less mult.commute)
  have m: "month (setMonth (setYear (clk k) (targetYear cfg)) ?tm) < 12"
    and t: "tod (setMonth (setYear (clk k) (targetYear cfg)) ?tm) < 86400000" for k
    using clk tm by (simp_all add: setMonth_setYear [OF tm])
  let ?M = "\<lambda>k. setMonth (setYear (clk k) (targetYear cfg)) ?tm"
  let ?dim = "daysInMonth (year (?M (n + 1))) (month (?M (n + 1)))"
  show ?thesis
  proof (cases "b > ?dim")
    case True
    have "validDate (setDate (?M (n + 2)) ?dim)" by (rule validDate_setDate [OF m t])
    moreover have "birthdayStep cfg clk vc b v (n, ds)
        = (n + 3, ds @ [findNextWorkingDay (setDate (?M (n + 2)) ?dim) (holidays cfg)
                          (saturdayWorking cfg)])"
      using True by (simp add: birthdayStep_def Let_def)
    ultimately show ?thesis by blast
  next
    case False
    have "validDate (setDate (?M n) b)" by (rule validDate_setDate [OF m t])
    moreover have "birthdayStep cfg clk vc b v (n, ds)
        = (n + 2, ds @ [findNextWorkingDay (setDate (?M n) b) (holidays cfg)
                          (saturdayWorking cfg)])"
      using False by (simp add: birthdayStep_def Let_def)
    ultimately show ?thesis by blast
  qed
qed

lemma birthday_fold_valid:
  assumes clk: "\<forall>n. tod (clk n) < 86400000"
  shows "k \<le> vc \<Longrightarrow>
     \<exists>ds n'. fold (birthdayStep cfg clk vc b) [0..<k] (n, acc) = (n', acc @ ds)
       \<and> length ds = k
       \<and> (\<forall>d\<in>set ds. \<exists>d0. validDate d0
              \<and> d = findNextWorkingDay d0 (holidays cfg) (saturdayWorking cfg))"
proof (induction k)
  case 0
  then show ?case by simp
next
  case (Suc k)
  then obtain ds n' where f: "fold (birthdayStep cfg clk vc b) [0..<k] (n, acc) = (n', acc @ ds)"
    and l: "length ds = k"
    and v: "\<forall>d\<in>set ds. \<exists>d0. validDate d0
              \<and> d = findNextWorkingDay d0 (holidays cfg) (saturdayWorking cfg)"
    by auto
  from Suc.prems have "k < vc" by simp
  from birthdayStep_valid [OF this clk, of cfg b n' "acc @ ds"]
  obtain d n'' where s: "birthdayStep cfg clk vc b k (n', acc @ ds)
      = (n'', (acc @ ds) @ [findNextWorkingDay d (holidays cfg) (saturdayWorking cfg)])"
    and d: "validDate d" by blast
  have "fold (birthdayStep cfg clk vc b) [0..<Suc k] (n, acc)
          = (n'', acc @ (ds @ [findNextWorkingDay d (holidays cfg) (saturdayWorking cfg)]))"
    by (simp add: f s)
  moreover have "length (ds @ [findNextWorkingDay d (holidays cfg) (saturdayWorking cfg)]) = Suc k"
    using l by simp
  moreover have "\<forall>x\<in>set (ds @ [findNextWorkingDay d (holidays cfg) (saturdayWorking cfg)]).
      \<exists>d0. validDate d0 \<and> x = findNextWorkingDay d0 (holidays cfg) (saturdayWorking cfg)"
    using v d by auto
  ultimately show ?case by blast
qed


lemma day_addDays: "day ((addDay ^^ k) d) = (day d + k) mod 7"
proof -
  have e: "dayNumber d + k + 5 = dayNumber d + 5 + k" by simp
  have "(day d + k) mod 7 = ((dayNumber d + 5) mod 7 + k) mod 7" by (simp only: day_def)
  also have "\<dots> = (dayNumber d + 5 + k) mod 7" by (rule mod_add_left_eq)
  finally show ?thesis by (simp only: day_def dayNumber_addDays e)
qed

lemma day_less: "day d < 7"
  by (simp add: day_def)

lemma workingDayWithin60_no_holidays: "workingDayWithin60 [] sat"
  unfolding workingDayWithin60_def
proof (intro allI impI)
  fix d :: dayjs
  have w: "isWorkingDay x [] sat \<longleftrightarrow> day x \<noteq> 0 \<and> (day x \<noteq> 6 \<or> sat)" for x
    by (simp add: isWorkingDay_def Let_def)
  consider "day d = 0" | "day d = 6" | "day d \<noteq> 0" "day d \<noteq> 6" by blast
  then show "\<exists>k<60. isWorkingDay ((addDay ^^ k) d) [] sat"
  proof cases
    case 1
    then have "isWorkingDay ((addDay ^^ 1) d) [] sat" unfolding w day_addDays by simp
    moreover have "(1::nat) < 60" by simp
    ultimately show ?thesis by blast
  next
    case 2
    then have "isWorkingDay ((addDay ^^ 2) d) [] sat" unfolding w day_addDays by simp
    moreover have "(2::nat) < 60" by simp
    ultimately show ?thesis by blast
  next
    case 3
    then have "isWorkingDay ((addDay ^^ 0) d) [] sat" unfolding w by simp
    moreover have "(0::nat) < 60" by simp
    ultimately show ?thesis by blast
  qed
qed

lemma findNextWorkingDay_working_valid:
  "workingDayWithin60 hol sat \<Longrightarrow> validDate d \<Longrightarrow>
     isWorkingDay (findNextWorkingDay d hol sat) hol sat"
  unfolding workingDayWithin60_def using findNextWorkingDay_working by blast

lemma cycleDates_working:
  assumes "workingDayWithin60 (holidays cfg) (saturdayWorking cfg)" "validDate f"
    "d \<in> set (cycleDates cfg vc f)"
  shows "isWorkingDay d (holidays cfg) (saturdayWorking cfg)"
proof -
  from assms(3) obtain x where x: "x \<in> set (generatedDatesB cfg vc f)"
    and d: "d = findNextWorkingDay x (holidays cfg) (saturdayWorking cfg)"
    by (auto simp: cycleDates_def)
  from generatedDatesB_valid [OF assms(2) x] have "validDate x" by simp
  with assms(1) d show ?thesis by (simp add: findNextWorkingDay_working_valid)
qed

lemma birthdayDates_props:
  assumes clk: "\<forall>n. tod (clk n) < 86400000"
  shows "length (snd (birthdayDates cfg clk vc b n)) = vc"
    and "sorted (map valueOf (snd (birthdayDates cfg clk vc b n)))"
    and "workingDayWithin60 (holidays cfg) (saturdayWorking cfg) \<Longrightarrow>
         d \<in> set (snd (birthdayDates cfg clk vc b n)) \<Longrightarrow>
         isWorkingDay d (holidays cfg) (saturdayWorking cfg)"
proof -
  from birthday_fold_valid [OF clk, of vc vc cfg b n "[]"]
  obtain ds n' where f: "fold (birthdayStep cfg clk vc b) [0..<vc] (n, []) = (n', ds)"
    and l: "length ds = vc"
    and v: "\<forall>d\<in>set ds. \<exists>d0. validDate d0
              \<and> d = findNextWorkingDay d0 (holidays cfg) (saturdayWorking cfg)"
    by auto
  have e: "snd (birthdayDates cfg clk vc b n) = sort_key valueOf ds"
    by (simp add: birthdayDates_def f Let_def)
  show "length (snd (birthdayDates cfg clk vc b n)) = vc" by (simp add: e l)
  show "sorted (map valueOf (snd (birthdayDates cfg clk vc b n)))"
    unfolding e by (rule sorted_sort_key)
  show "isWorkingDay d (holidays cfg) (saturdayWorking cfg)"
    if "workingDayWithin60 (holidays cfg) (saturdayWorking cfg)"
      "d \<in> set (snd (birthdayDates cfg clk vc b n))"
    using that v by (auto simp: e findNextWorkingDay_working_valid)
qed


section \<open>The even distribution\<close>

lemma sum_list_quota:
  assumes "r \<le> D"
  shows "sum_list (map (\<lambda>d. if d < r then b + 1 else b) [0..<D]) = D * b + (r::nat)"
  using assms
proof (induction D)
  case 0
  then show ?case by simp
next
  case (Suc D)
  show ?case
  proof (cases "r = Suc D")
    case True
    then have "sum_list (map (\<lambda>d. if d < r then b + 1 else b) [0..<D])
                 = sum_list (map (\<lambda>d. b + 1) [0..<D])"
      by (intro arg_cong [where f = sum_list] map_cong) auto
    also have "\<dots> = D * (b + 1)" by (simp add: sum_list_triv)
    finally show ?thesis using True by simp
  next
    case False
    with Suc.prems have "r \<le> D" by simp
    with Suc.IH show ?thesis by simp
  qed
qed

lemma sum_list_countForDay: "0 < D \<Longrightarrow> sum_list (map (countForDay N D) [0..<D]) = N"
proof -
  assume D: "0 < D"
  have "countForDay N D = (\<lambda>d. if d < N mod D then N div D + 1 else N div D)"
    by (rule ext) (simp add: countForDay_def Let_def)
  then have "sum_list (map (countForDay N D) [0..<D])
        = sum_list (map (\<lambda>d. if d < N mod D then N div D + 1 else N div D) [0..<D])"
    by simp
  also have "\<dots> = D * (N div D) + N mod D"
    using D by (intro sum_list_quota) simp
  finally show ?thesis by simp
qed

lemma autoCounts_eq: "autoCounts n = map (\<lambda>i. int (countForDay n 12 i)) [0..<12]"
  by (simp add: autoCounts_def countForDay_def Let_def fold_snoc_map)

lemma sum_list_autoCounts: "sum_list (autoCounts n) = int n"
proof -
  have "sum_list (map (\<lambda>i. int (f i)) xs) = int (sum_list (map f xs))"
    for f :: "nat \<Rightarrow> nat" and xs
    by (induction xs) simp_all
  then have "sum_list (autoCounts n) = int (sum_list (map (countForDay n 12) [0..<12]))"
    unfolding autoCounts_eq by blast
  then show ?thesis using sum_list_countForDay [of 12 n] by simp
qed

text \<open>
  Claim C3. When \<open>N\<close> people are spread over \<open>D > 0\<close> slots, each of the first
  \<open>N mod D\<close> slots gets \<open>floor(N / D) + 1\<close> and every other slot \<open>floor(N / D)\<close>, and the
  quotas add up to \<open>N\<close>. This is the quota of the working days of a month, and the
  quotas of the 12 months in automatic distribution are the same allocation with
  \<open>D = 12\<close>.
\<close>

theorem even_distribution:
  "0 < D \<Longrightarrow>
     (\<forall>d<D. countForDay N D d = (if d < N mod D then N div D + 1 else N div D))
     \<and> sum_list (map (countForDay N D) [0..<D]) = N
     \<and> autoCounts N = map (\<lambda>i. int (countForDay N 12 i)) [0..<12]
     \<and> sum_list (autoCounts N) = int N"
proof (intro conjI allI impI)
  fix d
  show "countForDay N D d = (if d < N mod D then N div D + 1 else N div D)"
    by (simp add: countForDay_def Let_def)
next
  assume "0 < D"
  then show "sum_list (map (countForDay N D) [0..<D]) = N" by (rule sum_list_countForDay)
next
  show "autoCounts N = map (\<lambda>i. int (countForDay N 12 i)) [0..<12]" by (rule autoCounts_eq)
next
  show "sum_list (autoCounts N) = int N" by (rule sum_list_autoCounts)
qed

theorem even_distribution_witness:
  "sum_list (map (countForDay 13 5) [0..<5]) = 13
   \<and> countForDay 13 5 2 = 3 \<and> countForDay 13 5 3 = 2
   \<and> sum_list (autoCounts 13) = 13"
proof -
  have h: "(0::nat) < 5" by simp
  note e = even_distribution [OF h, of 13]
  from e have q: "\<forall>d<5. countForDay 13 5 d = (if d < 13 mod 5 then 13 div 5 + 1 else 13 div 5)"
    by blast
  have "(2::nat) < 5" "(3::nat) < 5" by simp_all
  with q have "countForDay 13 5 2 = (if (2::nat) < 13 mod 5 then 13 div 5 + 1 else 13 div 5)"
    "countForDay 13 5 3 = (if (3::nat) < 13 mod 5 then 13 div 5 + 1 else 13 div 5)"
    by blast+
  then have "countForDay 13 5 2 = 3" "countForDay 13 5 3 = 2" by simp_all
  moreover from e have "sum_list (map (countForDay 13 5) [0..<5]) = 13" by blast
  moreover from e have "sum_list (autoCounts 13) = int 13" by blast
  ultimately show ?thesis by simp
qed

lemma autoCounts_13: "autoCounts 13 = [2, 1, 1, 1, 1, 1, 1, 1, 1, 1, 1, 1]"
  by (simp add: autoCounts_def Let_def upt_conv_Cons)

section \<open>The derived gender and the gender filter\<close>









section \<open>The two date projections\<close>










section \<open>The capacity check and the people left in the pool\<close>




lemma processRange_total:
  "(\<exists>e. processRange sh cfg clk rng r = Inl e) \<or> (\<exists>r'. processRange sh cfg clk rng r = Inr r')"
  by (cases "processRange sh cfg clk rng r") auto





lemma monthStep_zero:
  "set cs \<subseteq> {0} \<Longrightarrow> monthStep sh cfg clk vc pool cs m st = st"
proof -
  assume "set cs \<subseteq> {0}"
  then have "m < length cs \<Longrightarrow> cs ! m = 0"
    by (meson nth_mem singletonD subsetD)
  then have "(if m < length cs then cs ! m else 0) = 0" by simp
  then show ?thesis by (simp add: monthStep_def)
qed

lemma fold_monthStep_zero:
  "set cs \<subseteq> {0} \<Longrightarrow> fold (monthStep sh cfg clk vc pool cs) ms st = st"
  by (induction ms) (simp_all add: monthStep_zero)



text \<open>
  Claim C4 at the input that breaks it: one eligible person and a manual plan of zero for
  every month. Nobody is placed, \<open>rangeAllRows\<close> stays empty, and the rows of the people
  left in the pool are only added when \<open>rangeAllRows\<close> is not empty: the cohort ends with
  no row at all, neither assigned nor unplanned, for a pool of one.
\<close>

theorem nobody_placed_loses_the_pool:
  "length (rangePatients
     \<lparr>birthKey = None, idColKey = Some ''No'', nameColKey = Some ''F.I.SH'',
      rowsData = [\<lparr>cells = [''F.I.SH'' \<mapsto> CStr ''Karimov Anvar''],
                   birthDate = Some \<lparr>year = 2000, month = 4, date = 17, tod = 0\<rparr>\<rparr>]\<rparr>
     \<lparr>startYear = 2000, endYear = 2000, gender = [], visitCount = 1,
      useBirthday = False, counts = [0, 0, 0, 0, 0, 0, 0, 0, 0, 0, 0, 0]\<rparr>) = 1
   \<and> processExcel
     \<lparr>birthKey = None, idColKey = Some ''No'', nameColKey = Some ''F.I.SH'',
      rowsData = [\<lparr>cells = [''F.I.SH'' \<mapsto> CStr ''Karimov Anvar''],
                   birthDate = Some \<lparr>year = 2000, month = 4, date = 17, tod = 0\<rparr>\<rparr>]\<rparr>
     \<lparr>ranges = [\<lparr>startYear = 2000, endYear = 2000, gender = [], visitCount = 1,
                 useBirthday = False, counts = [0, 0, 0, 0, 0, 0, 0, 0, 0, 0, 0, 0]\<rparr>],
      targetYear = 2026, saturdayWorking = False, holidays = []\<rparr>
     (\<lambda>i. \<lparr>year = 2026, month = 10, date = 3, tod = 36000000\<rparr>)
   = Inr \<lparr>outWarnings = [PlanBelowPopulation 2000 2000 0 1],
          outGroups = [\<lparr>rows = [], groupVisitCount = 1\<rparr>],
          outPlan = Some []\<rparr>"
  by (simp add: processExcel_def processRange_def rangePatients_def inRange_def Let_def
      visitCountOf_def processAllOf_def schedule_def logicB_def fold_monthStep_zero
      addUnplanned_def allFlatRowsOf_def)

section \<open>What the loops of logic B compute\<close>

lemma takeForMonth_eq:
  "takeForMonth n pool i acc = (i + length (take n (drop i pool)), acc @ take n (drop i pool))"
proof (induction n arbitrary: i acc)
  case 0
  then show ?case by simp
next
  case (Suc n)
  show ?case
  proof (cases "i < length pool")
    case True
    then have d: "drop i pool = pool ! i # drop (Suc i) pool" by (simp add: Cons_nth_drop_Suc)
    show ?thesis using True by (simp add: Suc d)
  next
    case False
    then show ?thesis by simp
  qed
qed

lemma placeOnDay_eq:
  "placeOnDay n sh cfg vc pfm dayDate st =
     (let c = currentPatientIdx st; j = min n (length pfm - c) in
      st\<lparr>currentPatientIdx := c + j,
         monthlyIdCounter := idAt sh (monthlyIdCounter st) j,
         allRows := allRows st
           @ map (\<lambda>i. outRowB sh cfg vc (pfm ! (c + i)) (idAt sh (monthlyIdCounter st) i) dayDate)
               [0..<j]\<rparr>)"
proof (induction n arbitrary: st)
  case 0
  then show ?case by (simp add: idAt_def)
next
  case (Suc n)
  show ?case
  proof (cases "currentPatientIdx st \<ge> length pfm")
    case True
    then show ?thesis by (simp add: idAt_def)
  next
    case False
    let ?c = "currentPatientIdx st"
    let ?st = "st\<lparr>currentPatientIdx := ?c + 1,
                  monthlyIdCounter :=
                    (if idColKey sh = None then monthlyIdCounter st
                     else monthlyIdCounter st + 1),
                  allRows := allRows st @ [outRowB sh cfg vc (pfm ! ?c) (monthlyIdCounter st) dayDate]\<rparr>"
    have step: "placeOnDay (Suc n) sh cfg vc pfm dayDate st = placeOnDay n sh cfg vc pfm dayDate ?st"
      using False by (simp add: Let_def)
    have j: "min (Suc n) (length pfm - ?c) = Suc (min n (length pfm - (?c + 1)))"
      using False by (auto simp: min_def)
    have m: "map (\<lambda>i. outRowB sh cfg vc (pfm ! (?c + i)) (idAt sh (monthlyIdCounter st) i) dayDate)
               [0..<Suc (min n (length pfm - (?c + 1)))]
         = outRowB sh cfg vc (pfm ! ?c) (monthlyIdCounter st) dayDate
           # map (\<lambda>i. outRowB sh cfg vc (pfm ! (?c + 1 + i))
                        (idAt sh (monthlyIdCounter ?st) i) dayDate)
               [0..<min n (length pfm - (?c + 1))]"
      by (auto simp: upt_conv_Cons map_Suc_upt [symmetric] idAt_def simp del: upt_Suc)
    show ?thesis
      unfolding step Suc [of ?st] Let_def j m
      by (simp add: idAt_def)
  qed
qed


lemma length_daysFor: "length (daysFor N wd k) = quotaSum N (length wd) k"
  by (induction k) (simp_all add: daysFor_def quotaSum_def)

lemma quotaSum_Suc: "quotaSum N D (Suc k) = quotaSum N D k + countForDay N D k"
  by (simp add: quotaSum_def)

lemma daysFor_Suc:
  "daysFor N wd (Suc k) = daysFor N wd k @ replicate (countForDay N (length wd) k) (wd ! k)"
  by (simp add: daysFor_def)

lemma quotaSum_mono: "k \<le> l \<Longrightarrow> quotaSum N D k \<le> quotaSum N D l"
  by (induction l) (auto simp: le_Suc_eq quotaSum_Suc)

lemma quotaSum_all: "0 < D \<Longrightarrow> quotaSum N D D = N"
  by (simp add: quotaSum_def sum_list_countForDay)

lemma quotaSum_le: "k \<le> D \<Longrightarrow> quotaSum N D k \<le> N"
proof -
  assume k: "k \<le> D"
  show ?thesis
  proof (cases "D = 0")
    case True
    with k show ?thesis by (simp add: quotaSum_def)
  next
    case False
    with quotaSum_mono [OF k, of N D] quotaSum_all [of D N] show ?thesis by simp
  qed
qed

lemma zip_upt_replicate:
  "map f (zip [a..<a + j] (replicate j x)) = map (\<lambda>i. f (a + i, x)) [0..<j]"
proof (induction j)
  case 0
  then show ?case by simp
next
  case (Suc j)
  have "[a..<a + Suc j] = [a..<a + j] @ [a + j]" by simp
  moreover have "replicate (Suc j) x = replicate j x @ [x]" by (simp add: replicate_append_same)
  ultimately have "zip [a..<a + Suc j] (replicate (Suc j) x)
      = zip [a..<a + j] (replicate j x) @ [(a + j, x)]"
    by (simp del: replicate_Suc upt_Suc)
  then show ?case using Suc by (simp del: replicate_Suc)
qed

lemma idAt_idAt: "idAt sh (idAt sh c a) b = idAt sh c (a + b)"
  by (simp add: idAt_def)

lemma placeMonth_fold:
  assumes "k \<le> length wd"
  shows "fold (\<lambda>d st. placeOnDay (countForDay (length pfm) (length wd) d) sh cfg vc pfm (wd ! d) st)
           [0..<k] \<lparr>currentPatientIdx = 0, monthlyIdCounter = 1, allRows = rs\<rparr>
     = \<lparr>currentPatientIdx = quotaSum (length pfm) (length wd) k,
        monthlyIdCounter = idAt sh 1 (quotaSum (length pfm) (length wd) k),
        allRows = rs @ map (rowOf sh cfg vc pfm)
                         (zip [0..<quotaSum (length pfm) (length wd) k]
                              (daysFor (length pfm) wd k))\<rparr>"
  using assms
proof (induction k)
  case 0
  then show ?case by (simp add: quotaSum_def daysFor_def idAt_def)
next
  case (Suc k)
  let ?N = "length pfm" and ?D = "length wd"
  let ?S = "quotaSum ?N ?D k"
  let ?q = "countForDay ?N ?D k"
  from Suc.prems have k: "k \<le> ?D" and k1: "Suc k \<le> ?D" by simp_all
  have le: "?S + ?q \<le> ?N" using quotaSum_le [OF k1, of ?N] by (simp add: quotaSum_Suc)
  then have j: "min ?q (?N - ?S) = ?q" by simp
  have z: "zip [0..<?S + ?q] (daysFor ?N wd k @ replicate ?q (wd ! k))
        = zip [0..<?S] (daysFor ?N wd k) @ zip [?S..<?S + ?q] (replicate ?q (wd ! k))"
  proof -
    have "zip ([0..<?S] @ [?S..<?S + ?q]) (daysFor ?N wd k @ replicate ?q (wd ! k))
        = zip [0..<?S] (daysFor ?N wd k) @ zip [?S..<?S + ?q] (replicate ?q (wd ! k))"
      by (intro zip_append) (simp add: length_daysFor)
    moreover have "[0..<?S] @ [?S..<?S + ?q] = [0..<?S + ?q]"
      using upt_add_eq_append [of 0 ?S ?q] by simp
    ultimately show ?thesis by (simp only:)
  qed
  have r: "map (rowOf sh cfg vc pfm) (zip [?S..<?S + ?q] (replicate ?q (wd ! k)))
        = map (\<lambda>i. outRowB sh cfg vc (pfm ! (?S + i)) (idAt sh (idAt sh 1 ?S) i) (wd ! k)) [0..<?q]"
    unfolding zip_upt_replicate by (simp add: rowOf_def idAt_idAt)
  let ?F = "\<lambda>d st. placeOnDay (countForDay ?N ?D d) sh cfg vc pfm (wd ! d) st"
  let ?st = "\<lparr>currentPatientIdx = ?S, monthlyIdCounter = idAt sh 1 ?S,
        allRows = rs @ map (rowOf sh cfg vc pfm) (zip [0..<?S] (daysFor ?N wd k))\<rparr>"
  have "fold ?F [0..<Suc k] \<lparr>currentPatientIdx = 0, monthlyIdCounter = 1, allRows = rs\<rparr>
      = placeOnDay ?q sh cfg vc pfm (wd ! k) ?st"
    using Suc.IH [OF k] by simp
  also have "\<dots> = \<lparr>currentPatientIdx = ?S + ?q, monthlyIdCounter = idAt sh 1 (?S + ?q),
        allRows = (rs @ map (rowOf sh cfg vc pfm) (zip [0..<?S] (daysFor ?N wd k)))
          @ map (\<lambda>i. outRowB sh cfg vc (pfm ! (?S + i)) (idAt sh (idAt sh 1 ?S) i) (wd ! k))
              [0..<?q]\<rparr>"
    unfolding placeOnDay_eq Let_def by (simp add: j idAt_idAt)
  also have "\<dots> = \<lparr>currentPatientIdx = quotaSum ?N ?D (Suc k),
        monthlyIdCounter = idAt sh 1 (quotaSum ?N ?D (Suc k)),
        allRows = rs @ map (rowOf sh cfg vc pfm)
                         (zip [0..<quotaSum ?N ?D (Suc k)] (daysFor ?N wd (Suc k)))\<rparr>"
    unfolding quotaSum_Suc daysFor_Suc z r [symmetric] by simp
  finally show ?case .
qed

lemma placeMonth_eq:
  assumes "wd \<noteq> []"
  shows "placeMonth sh cfg vc pfm wd rs
     = rs @ map (rowOf sh cfg vc pfm) (zip [0..<length pfm] (daysFor (length pfm) wd (length wd)))"
proof -
  have "0 < length wd" using assms by simp
  then have q: "quotaSum (length pfm) (length wd) (length wd) = length pfm" by (rule quotaSum_all)
  show ?thesis
    unfolding placeMonth_def Let_def placeMonth_fold [OF order_refl] q by simp
qed

lemma length_daysFor_all: "wd \<noteq> [] \<Longrightarrow> length (daysFor N wd (length wd)) = N"
  by (simp add: length_daysFor quotaSum_all)

lemma set_daysFor: "set (daysFor N wd (length wd)) \<subseteq> set wd"
  by (auto simp: daysFor_def)


lemma monthStep_cases:
  "monthStep sh cfg clk vc pool cs m st =
     (let targetCount = (if m < length cs then cs ! m else 0);
          wd = getWorkingDays (targetYear cfg) m (holidays cfg) (saturdayWorking cfg)
                 (clk (reads st));
          pfm = take (nat targetCount) (drop (pIndex st) pool)
      in if targetCount = 0 then st
         else if wd = [] then st\<lparr>reads := reads st + 1\<rparr>
         else if pfm = [] then st\<lparr>reads := reads st + 1\<rparr>
         else st\<lparr>reads := reads st + 1, pIndex := pIndex st + length pfm,
                 rangeAllRows := rangeAllRows st
                   @ map (rowOf sh cfg vc pfm)
                       (zip [0..<length pfm] (daysFor (length pfm) wd (length wd)))\<rparr>)"
  by (simp add: monthStep_def Let_def takeForMonth_eq placeMonth_eq)

lemma take_add_take: "take (i + length (take n (drop i xs))) xs = take i xs @ take n (drop i xs)"
proof -
  have "take (i + length (take n (drop i xs))) xs
      = take i xs @ take (length (take n (drop i xs))) (drop i xs)"
    by (rule take_add)
  also have "take (length (take n (drop i xs))) (drop i xs) = take n (drop i xs)"
    by (simp add: min_def)
  finally show ?thesis .
qed

lemma monthStep_inv:
  assumes m: "m < 12"
    and inv: "list_all2 (placedRow sh cfg clk vc) (take (pIndex st) pool) (rangeAllRows st)"
  shows "list_all2 (placedRow sh cfg clk vc)
           (take (pIndex (monthStep sh cfg clk vc pool cs m st)) pool)
           (rangeAllRows (monthStep sh cfg clk vc pool cs m st))"
proof -
  define tc where "tc = (if m < length cs then cs ! m else 0)"
  define wd where "wd = getWorkingDays (targetYear cfg) m (holidays cfg) (saturdayWorking cfg)
                 (clk (reads st))"
  define pfm where "pfm = take (nat tc) (drop (pIndex st) pool)"
  define ds where "ds = daysFor (length pfm) wd (length wd)"
  show ?thesis
  proof (cases "tc = 0 \<or> wd = [] \<or> pfm = []")
    case True
    then have "pIndex (monthStep sh cfg clk vc pool cs m st) = pIndex st"
      "rangeAllRows (monthStep sh cfg clk vc pool cs m st) = rangeAllRows st"
      by (auto simp: monthStep_cases Let_def tc_def wd_def pfm_def)
    with inv show ?thesis by simp
  next
    case False
    then have p: "pIndex (monthStep sh cfg clk vc pool cs m st) = pIndex st + length pfm"
      and r: "rangeAllRows (monthStep sh cfg clk vc pool cs m st)
          = rangeAllRows st @ map (rowOf sh cfg vc pfm) (zip [0..<length pfm] ds)"
      by (auto simp: monthStep_cases Let_def tc_def wd_def pfm_def ds_def)
    from False have wdne: "wd \<noteq> []" by simp
    have lds: "length ds = length pfm" unfolding ds_def by (rule length_daysFor_all [OF wdne])
    have sds: "set ds \<subseteq> set wd" unfolding ds_def by (rule set_daysFor)
    have new: "list_all2 (placedRow sh cfg clk vc) pfm
                 (map (rowOf sh cfg vc pfm) (zip [0..<length pfm] ds))"
    proof (rule list_all2_all_nthI)
      show "length pfm = length (map (rowOf sh cfg vc pfm) (zip [0..<length pfm] ds))"
        by (simp add: lds)
    next
      fix i assume i: "i < length pfm"
      then have "ds ! i \<in> set wd" using sds lds by (metis nth_mem subsetD)
      moreover have "map (rowOf sh cfg vc pfm) (zip [0..<length pfm] ds) ! i
          = outRowB sh cfg vc (pfm ! i) (idAt sh 1 i) (ds ! i)"
        using i lds by (simp add: rowOf_def)
      ultimately show "placedRow sh cfg clk vc (pfm ! i)
          (map (rowOf sh cfg vc pfm) (zip [0..<length pfm] ds) ! i)"
        unfolding placedRow_def wd_def using m by blast
    qed
    have "take (pIndex st + length pfm) pool = take (pIndex st) pool @ pfm"
      unfolding pfm_def by (rule take_add_take)
    with inv new show ?thesis unfolding p r by (simp add: list_all2_appendI)
  qed
qed

lemma fold_monthStep_inv:
  assumes "\<forall>m\<in>set ms. m < 12"
    and "list_all2 (placedRow sh cfg clk vc) (take (pIndex st) pool) (rangeAllRows st)"
  shows "list_all2 (placedRow sh cfg clk vc)
           (take (pIndex (fold (monthStep sh cfg clk vc pool cs) ms st)) pool)
           (rangeAllRows (fold (monthStep sh cfg clk vc pool cs) ms st))"
  using assms
proof (induction ms arbitrary: st)
  case Nil
  then show ?case by simp
next
  case (Cons m ms)
  have "list_all2 (placedRow sh cfg clk vc)
           (take (pIndex (monthStep sh cfg clk vc pool cs m st)) pool)
           (rangeAllRows (monthStep sh cfg clk vc pool cs m st))"
    using Cons.prems by (intro monthStep_inv) simp_all
  with Cons.IH [of "monthStep sh cfg clk vc pool cs m st"] Cons.prems(1) show ?case by simp
qed

lemma logicB_placed:
  "list_all2 (placedRow sh cfg clk vc)
     (take (pIndex (logicB sh cfg clk vc pa rng pool
                      \<lparr>pIndex = 0, rangeAllRows = [], reads = n\<rparr>)) pool)
     (rangeAllRows (logicB sh cfg clk vc pa rng pool \<lparr>pIndex = 0, rangeAllRows = [], reads = n\<rparr>))"
  unfolding logicB_def Let_def by (rule fold_monthStep_inv) simp_all

end
